theory Spec2Isabelle
  imports Main "HOL-Library.Sublist"
begin

section \<open>Python string primitives used by the build scripts\<close>

text \<open>
  File contents and paths are \<^typ>\<open>string\<close>s. The functions below are the Python
  \<^verbatim>\<open>str\<close> operations that \<^verbatim>\<open>patch_pc\<close> uses: \<^verbatim>\<open>s in c\<close>, \<^verbatim>\<open>c.replace(old, new)\<close>,
  \<^verbatim>\<open>c.split('\n')\<close>, \<^verbatim>\<open>'\n'.join(lines)\<close>, \<^verbatim>\<open>line.startswith(p)\<close> (which is
  \<^const>\<open>prefix\<close>), \<^verbatim>\<open>line.rstrip()\<close> and \<^verbatim>\<open>path.lower()\<close>.
\<close>

fun contains :: "string \<Rightarrow> string \<Rightarrow> bool" where
  "contains s [] = (s = [])"
| "contains s (y # ys) = (prefix s (y # ys) \<or> contains s ys)"

fun replace :: "string \<Rightarrow> string \<Rightarrow> string \<Rightarrow> string" where
  "replace old new [] = (if old = [] then new else [])"
| "replace old new (x # xs) =
     (if old = [] then new @ x # replace old new xs
      else if prefix old (x # xs) then new @ replace old new (drop (length old) (x # xs))
      else x # replace old new xs)"

definition newline :: char where
  "newline = CHR 0x0A"

fun split_nl :: "string \<Rightarrow> string list" where
  "split_nl [] = [[]]"
| "split_nl (x # xs) =
     (if x = newline then [] # split_nl xs
      else (case split_nl xs of l # ls \<Rightarrow> (x # l) # ls | [] \<Rightarrow> [[x]]))"

fun join_nl :: "string list \<Rightarrow> string" where
  "join_nl [] = []"
| "join_nl [l] = l"
| "join_nl (l # ls) = l @ newline # join_nl ls"

definition is_space :: "char \<Rightarrow> bool" where
  "is_space ch = (ch \<in> {CHR 0x09, CHR 0x0A, CHR 0x0B, CHR 0x0C, CHR 0x0D,
                          CHR 0x1C, CHR 0x1D, CHR 0x1E, CHR 0x1F, CHR 0x20})"

definition rstrip :: "string \<Rightarrow> string" where
  "rstrip l = rev (dropWhile is_space (rev l))"

definition lower_char :: "char \<Rightarrow> char" where
  "lower_char ch =
     (let k = (of_char ch :: nat) in if 65 \<le> k \<and> k \<le> 90 then char_of (k + 32) else ch)"

definition lower :: "string \<Rightarrow> string" where
  "lower s = map lower_char s"


section \<open>Package metadata repair: \<^verbatim>\<open>patch_pc\<close>\<close>

text \<open>
  A path of the file system names a regular file with its text, a directory, or nothing.
\<close>

datatype node = File string | Dir

type_synonym filesystem = "string \<rightharpoonup> node"

subsection \<open>\<^verbatim>\<open>build.py\<close>, lines 156-169\<close>

text \<open>
  The text that \<^verbatim>\<open>patch_pc(path, libs)\<close> of \<^verbatim>\<open>build.py\<close> writes back for a file whose
  text is \<open>c\<close>: the flags are inserted after the first kind of field that occurs
  (\<^verbatim>\<open>Libs.private:\<close>, else \<^verbatim>\<open>Libs:\<close>, else a new \<^verbatim>\<open>Libs:\<close> line is appended) unless
  \<^verbatim>\<open>libs in c\<close>, and then every \<^verbatim>\<open>-ldl\<close> is removed.
\<close>

definition patch_pc_text_v1 :: "string \<Rightarrow> string \<Rightarrow> string" where
  "patch_pc_text_v1 libs c =
     (let c1 = (if \<not> contains libs c then
                  (if contains ''Libs.private:'' c
                     then replace ''Libs.private:'' (''Libs.private: '' @ libs) c
                   else if contains ''Libs:'' c
                     then replace ''Libs:'' (''Libs: '' @ libs) c
                   else c @ newline # ''Libs: '' @ libs)
                else c)
      in if contains ''-ldl'' c1 then replace ''-ldl'' [] c1 else c1)"

text \<open>
  \<^verbatim>\<open>patch_pc\<close> on the file system. \<^verbatim>\<open>os.path.exists\<close> is false for a missing path and the
  function returns at once. For a directory \<^verbatim>\<open>open\<close> raises inside the \<^verbatim>\<open>try\<close>; the handler
  logs the error and nothing is written.
\<close>

definition patch_pc_v1 :: "string \<Rightarrow> string \<Rightarrow> filesystem \<Rightarrow> filesystem" where
  "patch_pc_v1 path libs fs =
     (case fs path of
        None \<Rightarrow> fs
      | Some Dir \<Rightarrow> fs
      | Some (File c) \<Rightarrow> fs(path \<mapsto> File (patch_pc_text_v1 libs c)))"

subsection \<open>\<^verbatim>\<open>build_v2_clang.py\<close>, lines 176-218\<close>

definition extra_sdl :: string where
  "extra_sdl = ''-lmingw32 -lSDL2 -mwindows -lsetupapi -lwinmm -limm32 -lole32 -loleaut32 -lversion -luuid -ladvapi32 -lshell32 -luser32 -lgdi32''"

definition is_libs_line :: "string \<Rightarrow> bool" where
  "is_libs_line line = (prefix ''Libs.private:'' line \<or> prefix ''Libs:'' line)"

text \<open>The four stages of the v2 \<^verbatim>\<open>patch_pc\<close>, in the order of the source.\<close>

definition fix_prefix :: "string \<Rightarrow> string \<Rightarrow> string" where
  "fix_prefix msys_ucrt64_unix c =
     (if contains ''prefix=/ucrt64'' c
      then replace ''prefix=/ucrt64'' (''prefix='' @ msys_ucrt64_unix) c else c)"

definition fix_sdl :: "string \<Rightarrow> string \<Rightarrow> string" where
  "fix_sdl path c =
     (if contains ''sdl2.pc'' (lower path) then
        (let c1 = replace ''-lSDL2main'' [] c in
         if contains ''Libs.private:'' c1 then
           (if \<not> contains ''-lsetupapi'' c1
            then replace ''Libs.private:'' (''Libs.private: '' @ extra_sdl) c1 else c1)
         else if contains ''Libs:'' c1 then replace ''Libs:'' (''Libs: '' @ extra_sdl) c1
         else c1)
      else c)"

definition add_shim :: "string \<Rightarrow> string" where
  "add_shim c =
     (if \<not> contains ''-lvsnprintf_shim'' c then
        join_nl (map (\<lambda>line. if is_libs_line line then rstrip line @ '' -lvsnprintf_shim'' else line)
                     (split_nl c))
      else c)"

definition add_libs :: "string \<Rightarrow> string \<Rightarrow> string" where
  "add_libs libs c =
     (if libs \<noteq> [] \<and> \<not> contains libs c then
        join_nl (map (\<lambda>line. if is_libs_line line
                               then (if \<not> contains libs line then rstrip line @ '' '' @ libs else line)
                               else line)
                     (split_nl c))
      else c)"

definition strip_ldl :: "string \<Rightarrow> string" where
  "strip_ldl c = (if contains ''-ldl'' c then replace ''-ldl'' [] c else c)"

definition patch_pc_text_v2 :: "string \<Rightarrow> string \<Rightarrow> string \<Rightarrow> string \<Rightarrow> string" where
  "patch_pc_text_v2 msys_ucrt64_unix path libs c =
     strip_ldl (add_libs libs (add_shim (fix_sdl path (fix_prefix msys_ucrt64_unix c))))"

definition patch_pc_v2 :: "string \<Rightarrow> string \<Rightarrow> string \<Rightarrow> filesystem \<Rightarrow> filesystem" where
  "patch_pc_v2 msys_ucrt64_unix path libs fs =
     (case fs path of
        None \<Rightarrow> fs
      | Some Dir \<Rightarrow> fs
      | Some (File c) \<Rightarrow> fs(path \<mapsto> File (patch_pc_text_v2 msys_ucrt64_unix path libs c)))"

subsection \<open>Settled contents\<close>



text \<open>A metadata file as a build system installs it, and a file system holding it.\<close>

definition sample_pc :: string where
  "sample_pc = ''prefix=/ucrt64'' @ newline # ''Name: zimg'' @ newline #
               ''Libs: -L${libdir} -lzimg'' @ newline #
               ''Libs.private: -lz -ldl'' @ [newline]"

definition sample_fs :: filesystem where
  "sample_fs = [''lib/pkgconfig/zimg.pc'' \<mapsto> File sample_pc, ''lib/pkgconfig'' \<mapsto> Dir]"

section \<open>The dependency orchestrator of \<^verbatim>\<open>build_v2_clang.py\<close>\<close>

subsection \<open>Data\<close>

text \<open>The four command-line flags (line 65).\<close>

record flags =
  clean_mode :: bool
  force_resume :: bool
  skip_updates :: bool
  force_mpv :: bool

text \<open>
  An entry of \<^verbatim>\<open>deps\<close> (lines 595-631): the tuple \<^verbatim>\<open>(n, u, t, f, depends_on)\<close> without
  the flag text \<^verbatim>\<open>f\<close>, which only reaches the command lines.
\<close>

record dep =
  name :: string
  url :: "string option"
  kind :: "string option"
  depends_on :: "string list"

definition mk_dep :: "string \<Rightarrow> string option \<Rightarrow> string option \<Rightarrow> string list \<Rightarrow> dep" where
  "mk_dep n u t ds = \<lparr>name = n, url = u, kind = t, depends_on = ds\<rparr>"

definition deps :: "dep list" where
  "deps =
     [
      mk_dep ''expat'' (Some ''https://github.com/libexpat/libexpat.git'') (Some ''cmake'') [],
      mk_dep ''gettext'' None (Some ''intl'') [],
      mk_dep ''bzip2'' (Some ''https://sourceware.org/git/bzip2.git'') (Some ''make'') [],
      mk_dep ''zlib'' (Some ''https://github.com/madler/zlib.git'') (Some ''cmake'') [],
      mk_dep ''xz'' None (Some ''autotools'') [],
      mk_dep ''zimg'' (Some ''https://github.com/sekrit-twc/zimg.git'') (Some ''autotools'') [],
      mk_dep ''libpng'' (Some ''https://github.com/glennrp/libpng.git'') (Some ''cmake'') [''zlib''],
      mk_dep ''libjpeg-turbo'' (Some ''https://github.com/libjpeg-turbo/libjpeg-turbo.git'') (Some ''cmake'') [''zlib''],
      mk_dep ''freetype'' (Some ''https://gitlab.freedesktop.org/freetype/freetype.git'') (Some ''meson'') [''libpng'', ''bzip2'', ''zlib''],
      mk_dep ''libiconv'' None (Some ''autotools'') [],
      mk_dep ''fribidi'' (Some ''https://github.com/fribidi/fribidi.git'') (Some ''meson'') [],
      mk_dep ''harfbuzz'' (Some ''https://github.com/harfbuzz/harfbuzz.git'') (Some ''cmake'') [''freetype''],
      mk_dep ''fontconfig'' (Some ''https://gitlab.freedesktop.org/fontconfig/fontconfig.git'') (Some ''meson'') [''freetype'', ''expat'', ''libiconv'', ''gettext''],
      mk_dep ''libass'' (Some ''https://github.com/libass/libass.git'') (Some ''autotools'') [''freetype'', ''fribidi'', ''harfbuzz'', ''fontconfig''],
      mk_dep ''lcms2'' (Some ''https://github.com/mm2/Little-CMS.git'') (Some ''meson'') [],
      mk_dep ''libepoxy'' (Some ''https://github.com/anholt/libepoxy.git'') (Some ''meson'') [],
      mk_dep ''spirv-headers'' (Some ''https://github.com/KhronosGroup/SPIRV-Headers.git'') (Some ''cmake'') [],
      mk_dep ''spirv-cross'' (Some ''https://github.com/KhronosGroup/SPIRV-Cross.git'') (Some ''cmake'') [],
      mk_dep ''glslang'' (Some ''https://github.com/KhronosGroup/glslang.git'') None [],
      mk_dep ''spirv-tools'' (Some ''https://github.com/KhronosGroup/SPIRV-Tools.git'') None [],
      mk_dep ''shaderc'' (Some ''https://github.com/google/shaderc.git'') (Some ''cmake'') [''glslang'', ''spirv-tools'', ''spirv-headers''],
      mk_dep ''ffnvcodec'' (Some ''https://git.videolan.org/git/ffmpeg/nv-codec-headers.git'') (Some ''make'') [],
      mk_dep ''dav1d'' (Some ''https://code.videolan.org/videolan/dav1d.git'') (Some ''meson'') [],
      mk_dep ''libplacebo'' (Some ''https://code.videolan.org/videolan/libplacebo.git'') (Some ''meson'') [''shaderc'', ''lcms2'', ''libepoxy'', ''glslang''],
      mk_dep ''luajit'' (Some ''https://github.com/LuaJIT/LuaJIT.git'') (Some ''luajit'') [],
      mk_dep ''uchardet'' (Some ''https://gitlab.freedesktop.org/uchardet/uchardet.git'') (Some ''cmake'') [],
      mk_dep ''libsoxr'' (Some ''https://git.code.sf.net/p/soxr/code'') (Some ''cmake'') [],
      mk_dep ''fftw'' None (Some ''autotools'') [],
      mk_dep ''libsamplerate'' (Some ''https://github.com/libsndfile/libsamplerate.git'') (Some ''cmake'') [],
      mk_dep ''rubberband'' (Some ''https://github.com/breakfastquay/rubberband.git'') (Some ''meson'') [''fftw'', ''libsamplerate''],
      mk_dep ''libdvdcss'' (Some ''https://code.videolan.org/videolan/libdvdcss.git'') (Some ''meson'') [],
      mk_dep ''libdvdread'' (Some ''https://code.videolan.org/videolan/libdvdread.git'') (Some ''meson'') [''libdvdcss''],
      mk_dep ''libdvdnav'' (Some ''https://code.videolan.org/videolan/libdvdnav.git'') (Some ''meson'') [''libdvdread''],
      mk_dep ''libbluray'' (Some ''https://code.videolan.org/videolan/libbluray.git'') (Some ''meson'') [''libdvdread'', ''fontconfig'', ''freetype''],
      mk_dep ''libarchive'' (Some ''https://github.com/libarchive/libarchive.git'') (Some ''cmake'') [''zlib'', ''bzip2'', ''xz'']]"

text \<open>
  What is on disk under \<^verbatim>\<open>repositories/<n>\<close>: nothing, a directory without \<^verbatim>\<open>.git\<close>, or a
  git checkout.
\<close>

datatype repo = Absent | Plain | Git

text \<open>
  The install prefix without its markers: the files that exist, as pairs of the directory
  below the prefix and the file name, and the listing of \<^verbatim>\<open>bin\<close> when that directory
  exists. An entry of \<^verbatim>\<open>bin\<close> is a file, a directory, or neither (for \<^verbatim>\<open>os.path.isfile\<close> and
  \<^verbatim>\<open>os.path.isdir\<close>).
\<close>

datatype entry = IsFile | IsDir | Other

record tree =
  files :: "(string \<times> string) set"
  bin :: "(string \<rightharpoonup> entry) option"

text \<open>
  What a run does, in order: the branch taken for each package and the commands and
  network accesses made. \<open>Building n\<close> is the entry into the rebuild branch, \<open>Built n\<close>
  the write of the marker, \<open>Skipping n\<close> the other branch.
\<close>

datatype event =
    Wipe
  | Clone string
  | Pull string
  | Download string
  | Forcing string
  | Building string
  | Exec string string
  | Built string
  | Skipping string

text \<open>
  The state of a run. \<open>markers\<close> holds \<open>n\<close> when \<^verbatim>\<open>installed/.built_<n>\<close> exists;
  \<open>tarballs\<close> holds \<open>n\<close> when the archive of \<open>n\<close> is in \<^verbatim>\<open>tarballs/\<close>; \<open>updated_libs\<close> is the
  set of that name in \<^verbatim>\<open>build_v2_clang.py\<close> and \<open>deps_rebuilt\<close> the flag of that name in
  \<^verbatim>\<open>build.py\<close>; \<open>trace\<close> is the record of what the run has done so far.
\<close>

record state =
  markers :: "string set"
  installed :: tree
  repositories :: "string \<Rightarrow> repo"
  tarballs :: "string set"
  updated_libs :: "string set"
  deps_rebuilt :: bool
  trace :: "event list"

text \<open>
  Everything outside the script: whether a clone or a download succeeds, what a pull
  reports (\<open>None\<close> when a command of the update sequence exits nonzero, else whether
  \<^verbatim>\<open>HEAD\<close> moved), which files the working copy of a package holds, the exit status of a
  command run for a package, and what a command, the globbed removals of \<^verbatim>\<open>remove_pkg\<close>
  (\<open>purge\<close>) and \<^verbatim>\<open>clean_libs\<close> (\<open>sweep\<close>), the copy of the SDL2 headers and the
  environment set-up leave in the install prefix. External commands never touch the
  markers, which are the script's own files.
\<close>

record world =
  clone_ok :: "string \<Rightarrow> bool"
  pull :: "string \<Rightarrow> bool option"
  download_ok :: "string \<Rightarrow> bool"
  src_has :: "string \<Rightarrow> string \<Rightarrow> bool"
  exit_code :: "string \<Rightarrow> string \<Rightarrow> int"
  effect :: "string \<Rightarrow> string \<Rightarrow> tree \<Rightarrow> tree"
  purge :: "string \<Rightarrow> tree \<Rightarrow> tree"
  sweep :: "tree \<Rightarrow> tree"
  sdl_headers :: "tree \<Rightarrow> tree"
  bootstrap :: "tree \<Rightarrow> tree"

datatype error =
    CalledProcessError string string
  | FileNotFoundError string
  | DownloadError string
  | SystemExit

text \<open>An uncaught exception ends the run with a nonzero exit; the state is the one left.\<close>

type_synonym result = "(error \<times> state) + state"

definition final :: "result \<Rightarrow> state" where
  "final r = (case r of Inl (e, st) \<Rightarrow> st | Inr st \<Rightarrow> st)"

definition finished :: "result \<Rightarrow> bool" where
  "finished r = (case r of Inl _ \<Rightarrow> False | Inr _ \<Rightarrow> True)"

definition log :: "event \<Rightarrow> state \<Rightarrow> state" where
  "log e st = st\<lparr>trace := trace st @ [e]\<rparr>"

text \<open>The events that a step adds to the record of the state it starts from.\<close>

definition events :: "state \<Rightarrow> result \<Rightarrow> event list" where
  "events st r = drop (length (trace st)) (trace (final r))"

text \<open>The package an event is about.\<close>

fun subject :: "event \<Rightarrow> string option" where
  "subject Wipe = None"
| "subject (Clone n) = Some n"
| "subject (Pull n) = Some n"
| "subject (Download n) = Some n"
| "subject (Forcing n) = Some n"
| "subject (Building n) = Some n"
| "subject (Exec n c) = Some n"
| "subject (Built n) = Some n"
| "subject (Skipping n) = Some n"

subsection \<open>Process runner (lines 87-135)\<close>

text \<open>
  \<^verbatim>\<open>run\<close> for package \<open>n\<close>: the command runs, and a nonzero exit raises
  \<^verbatim>\<open>CalledProcessError\<close>. \<^verbatim>\<open>mrun\<close> runs a list in order and stops at the first raise.
\<close>

definition run :: "world \<Rightarrow> string \<Rightarrow> string \<Rightarrow> state \<Rightarrow> result" where
  "run w n c st =
     (let st1 = (log (Exec n c) st)\<lparr>installed := effect w n c (installed st)\<rparr>
      in if exit_code w n c \<noteq> 0 then Inl (CalledProcessError n c, st1) else Inr st1)"

fun mrun :: "world \<Rightarrow> string \<Rightarrow> string list \<Rightarrow> state \<Rightarrow> result" where
  "mrun w n [] st = Inr st"
| "mrun w n (c # cs) st =
     (case run w n c st of Inl e \<Rightarrow> Inl e | Inr st1 \<Rightarrow> mrun w n cs st1)"

subsection \<open>Source acquirer (lines 143-174 and 639-670)\<close>

definition git_sync :: "world \<Rightarrow> flags \<Rightarrow> string \<Rightarrow> state \<Rightarrow> (error \<times> state) + (bool \<times> state)" where
  "git_sync w fl n st =
     (if repositories st n \<noteq> Git then
        (if skip_updates fl then Inr (False, st)
         else
           (let st1 = log (Clone n) st in
            if clone_ok w n
            then Inr (True, st1\<lparr>repositories := (repositories st1)(n := Git)\<rparr>)
            else Inl (CalledProcessError n ''git clone'',
                      st1\<lparr>repositories := (repositories st1)(n := Absent)\<rparr>)))
      else if skip_updates fl then Inr (False, st)
      else
        (case pull w n of
           None \<Rightarrow> Inr (False, log (Pull n) st)
         | Some changed \<Rightarrow> Inr (changed, log (Pull n) st)))"

text \<open>
  The archive packages: a checkout left from an older version is removed, and a missing
  directory is filled from the archive, which is downloaded when it is not cached.
\<close>

definition tarball_sync :: "world \<Rightarrow> string \<Rightarrow> state \<Rightarrow> (error \<times> state) + (bool \<times> state)" where
  "tarball_sync w n st =
     (let st1 = (if repositories st n = Git
                 then st\<lparr>repositories := (repositories st)(n := Absent)\<rparr> else st);
          source_changed = (repositories st1 n = Absent)
      in if source_changed then
           (if n \<notin> tarballs st1 then
              (if download_ok w n
               then Inr (True, (log (Download n) st1)
                         \<lparr>tarballs := insert n (tarballs st1),
                          repositories := (repositories st1)(n := Plain)\<rparr>)
               else Inl (DownloadError n, log (Download n) st1))
            else Inr (True, st1\<lparr>repositories := (repositories st1)(n := Plain)\<rparr>))
         else Inr (False, st1))"

definition acquire :: "world \<Rightarrow> flags \<Rightarrow> dep \<Rightarrow> state \<Rightarrow> (error \<times> state) + (bool \<times> state)" where
  "acquire w fl d st =
     (if url d \<noteq> None then git_sync w fl (name d) st
      else if name d \<in> {''gettext'', ''xz'', ''fftw'', ''libiconv''} then tarball_sync w (name d) st
      else Inr (False, st))"

subsection \<open>Integrity check (lines 672-701)\<close>

definition output_check_map :: "string \<rightharpoonup> (string \<times> string) option" where
  "output_check_map =
     [''gettext'' \<mapsto> None,
      ''bzip2'' \<mapsto> Some (''lib'', ''libbz2.a''),
      ''libiconv'' \<mapsto> Some (''lib'', ''libiconv.a''),
      ''xz'' \<mapsto> Some (''lib/pkgconfig'', ''liblzma.pc''),
      ''freetype'' \<mapsto> Some (''lib/pkgconfig'', ''freetype2.pc''),
      ''libjpeg-turbo'' \<mapsto> Some (''lib/pkgconfig'', ''libjpeg.pc''),
      ''libsamplerate'' \<mapsto> Some (''lib/pkgconfig'', ''samplerate.pc''),
      ''spirv-cross'' \<mapsto> Some (''lib/pkgconfig'', ''spirv-cross-c.pc''),
      ''libsoxr'' \<mapsto> Some (''lib'', ''libsoxr.a''),
      ''luajit'' \<mapsto> Some (''lib/pkgconfig'', ''luajit.pc''),
      ''ffnvcodec'' \<mapsto> Some (''lib/pkgconfig'', ''ffnvcodec.pc''),
      ''glslang'' \<mapsto> None,
      ''spirv-tools'' \<mapsto> None,
      ''fftw'' \<mapsto> Some (''lib/pkgconfig'', ''fftw3.pc''),
      ''libepoxy'' \<mapsto> Some (''lib/pkgconfig'', ''epoxy.pc''),
      ''spirv-headers'' \<mapsto> None,
      ''libdvdread'' \<mapsto> Some (''lib/pkgconfig'', ''dvdread.pc''),
      ''libdvdnav'' \<mapsto> Some (''lib/pkgconfig'', ''dvdnav.pc'')]"

definition check_info :: "string \<Rightarrow> (string \<times> string) option" where
  "check_info n =
     (case output_check_map n of
        Some info \<Rightarrow> info
      | None \<Rightarrow> Some (''lib/pkgconfig'', n @ ''.pc''))"

text \<open>The expected artifact of a package is missing.\<close>

definition output_missing :: "string \<Rightarrow> state \<Rightarrow> bool" where
  "output_missing n st =
     (case check_info n of
        None \<Rightarrow> False
      | Some check_path \<Rightarrow> check_path \<notin> files (installed st))"

definition integrity_check :: "string \<Rightarrow> state \<Rightarrow> state" where
  "integrity_check n st =
     (if output_missing n st \<and> n \<in> markers st
      then log (Forcing n) (st\<lparr>markers := markers st - {n}\<rparr>)
      else st)"

subsection \<open>Build adapter dispatch (lines 705-837)\<close>

text \<open>
  The commands of one rebuild, in order, without their arguments. The bootstrap of the
  autotools kinds looks into the working copy.
\<close>

definition cmake_cmds :: "string list" where
  "cmake_cmds = [''cmake -B build -G Ninja'', ''ninja -C build'', ''ninja -C build install'']"

definition meson_cmds :: "string list" where
  "meson_cmds = [''meson setup build'', ''ninja -C build'', ''ninja -C build install'']"

definition bootstrap_cmds :: "world \<Rightarrow> dep \<Rightarrow> string list" where
  "bootstrap_cmds w d =
     (if (kind d = Some ''autotools'' \<or> kind d = Some ''intl'') \<and> \<not> src_has w (name d) ''configure''
      then (if src_has w (name d) ''autogen.sh'' then [''./autogen.sh'']
            else if src_has w (name d) ''configure.ac'' then [''autoreconf'', ''-i'']
            else [])
      else [])"

definition build_cmds :: "world \<Rightarrow> dep \<Rightarrow> string list" where
  "build_cmds w d =
     (if name d = ''shaderc'' then cmake_cmds
      else if kind d = Some ''meson'' then meson_cmds
      else if kind d = Some ''cmake'' then cmake_cmds
      else if kind d = Some ''autotools'' \<or> kind d = Some ''intl'' \<or> kind d = Some ''make''
              \<or> kind d = Some ''luajit'' then
        bootstrap_cmds w d @
        (if kind d = Some ''autotools'' then [''./configure'', ''make'', ''make install'']
         else if kind d = Some ''luajit'' then [''make -C src'', ''make install'']
         else [''make'', ''make install''])
      else [])"

text \<open>Files that the script itself writes into the prefix in a rebuild.\<close>

definition written_before_marker :: "string \<Rightarrow> (string \<times> string) set" where
  "written_before_marker n =
     (if n = ''libarchive'' then {(''lib/pkgconfig'', ''libarchive.pc'')} else {})"

definition written_after_marker :: "string \<Rightarrow> (string \<times> string) set" where
  "written_after_marker n =
     (if n = ''spirv-cross'' then {(''lib/pkgconfig'', ''spirv-cross-c-shared.pc'')} else {})"

definition add_files :: "(string \<times> string) set \<Rightarrow> state \<Rightarrow> state" where
  "add_files fs st = st\<lparr>installed := (installed st)\<lparr>files := files (installed st) \<union> fs\<rparr>\<rparr>"

text \<open>
  The rebuild branch: \<^verbatim>\<open>remove_pkg\<close>, the fresh working copy (\<^verbatim>\<open>shutil.copytree\<close> raises
  when the source directory is missing), the build commands, the metadata fix-ups (which
  change the text of existing files, and write \<^verbatim>\<open>libarchive.pc\<close>), the marker, the record
  in \<^verbatim>\<open>updated_libs\<close>, and the files written after the marker.
\<close>

definition rebuild :: "world \<Rightarrow> dep \<Rightarrow> state \<Rightarrow> result" where
  "rebuild w d st =
     (let n = name d;
          st1 = (log (Building n) st)\<lparr>installed := purge w n (installed st)\<rparr>
      in if repositories st1 n = Absent then Inl (FileNotFoundError n, st1)
         else
           (case mrun w n (build_cmds w d) st1 of
              Inl e \<Rightarrow> Inl e
            | Inr st2 \<Rightarrow>
                (let st3 = add_files (written_before_marker n) st2;
                     st4 = (log (Built n) st3)
                             \<lparr>markers := insert n (markers st3),
                              updated_libs := insert n (updated_libs st3)\<rparr>
                 in Inr (add_files (written_after_marker n) st4))))"

subsection \<open>The staleness predicate and the dependency loop (lines 633-838)\<close>

definition dep_changed :: "dep \<Rightarrow> state \<Rightarrow> bool" where
  "dep_changed d st = (\<exists>x \<in> set (depends_on d). x \<in> updated_libs st)"

definition stale :: "flags \<Rightarrow> dep \<Rightarrow> bool \<Rightarrow> state \<Rightarrow> bool" where
  "stale fl d source_changed st =
     (clean_mode fl \<or> name d \<notin> markers st \<or> source_changed \<or> dep_changed d st)"

definition process_dep :: "world \<Rightarrow> flags \<Rightarrow> dep \<Rightarrow> state \<Rightarrow> result" where
  "process_dep w fl d st =
     (case acquire w fl d st of
        Inl e \<Rightarrow> Inl e
      | Inr (source_changed, st1) \<Rightarrow>
          (let st2 = integrity_check (name d) st1
           in if stale fl d source_changed st2 then rebuild w d st2
              else Inr (log (Skipping (name d)) st2)))"

fun dep_loop :: "world \<Rightarrow> flags \<Rightarrow> dep list \<Rightarrow> state \<Rightarrow> result" where
  "dep_loop w fl [] st = Inr st"
| "dep_loop w fl (d # ds) st =
     (case process_dep w fl d st of Inl e \<Rightarrow> Inl e | Inr st1 \<Rightarrow> dep_loop w fl ds st1)"

subsection \<open>The two top-level projects (lines 840-913)\<close>

text \<open>
  Both projects follow one pattern: synchronise, decide, and on a rebuild make a fresh
  working copy, run the commands and write the marker. The player first copies the SDL2
  headers into the prefix (\<open>prep\<close>) and obeys \<^verbatim>\<open>--force-mpv\<close> (\<open>forced\<close>).
\<close>

definition top_level ::
  "world \<Rightarrow> flags \<Rightarrow> string \<Rightarrow> bool \<Rightarrow> (tree \<Rightarrow> tree) \<Rightarrow> string list \<Rightarrow> state \<Rightarrow> result" where
  "top_level w fl n forced prep cmds st =
     (case git_sync w fl n st of
        Inl e \<Rightarrow> Inl e
      | Inr (changed, st1) \<Rightarrow>
          (if clean_mode fl \<or> n \<notin> markers st1 \<or> changed \<or> updated_libs st1 \<noteq> {} \<or> forced then
             (let st2 = (log (Building n) st1)\<lparr>installed := prep (installed st1)\<rparr>
              in if repositories st2 n = Absent then Inl (FileNotFoundError n, st2)
                 else
                   (case mrun w n cmds st2 of
                      Inl e \<Rightarrow> Inl e
                    | Inr st3 \<Rightarrow> Inr ((log (Built n) st3)\<lparr>markers := insert n (markers st3)\<rparr>)))
           else Inr (log (Skipping n) st1)))"

definition build_ffmpeg :: "world \<Rightarrow> flags \<Rightarrow> state \<Rightarrow> result" where
  "build_ffmpeg w fl st =
     top_level w fl ''ffmpeg'' False id [''./configure'', ''make'', ''make install''] st"

definition build_mpv :: "world \<Rightarrow> flags \<Rightarrow> state \<Rightarrow> result" where
  "build_mpv w fl st = top_level w fl ''mpv'' (force_mpv fl) (sdl_headers w) meson_cmds st"

subsection \<open>Organizing and cleaning \<^verbatim>\<open>bin\<close> (lines 915-937)\<close>

definition allowed_files :: "string list" where
  "allowed_files = [''mpv.exe'', ''mpv.com'', ''ffmpeg.exe'', ''ffplay.exe'', ''ffprobe.exe'']"

text \<open>
  \<^verbatim>\<open>strip\<close> runs on each allowed file that exists; its failure is caught and logged.
\<close>

fun strip_bins :: "world \<Rightarrow> string list \<Rightarrow> state \<Rightarrow> state" where
  "strip_bins w [] st = st"
| "strip_bins w (exe # exes) st =
     (case bin (installed st) of
        None \<Rightarrow> strip_bins w exes st
      | Some listing \<Rightarrow>
          (if listing exe \<noteq> None
           then strip_bins w exes (final (run w ''bin'' (''strip -s '' @ exe) st))
           else strip_bins w exes st))"

text \<open>
  The cleaning pass over \<^verbatim>\<open>os.listdir(bin_dir)\<close>, which raises when the directory is
  missing: an item outside the allow-list is removed when it is a file
  (\<^verbatim>\<open>os.remove\<close>) or a directory (\<^verbatim>\<open>shutil.rmtree\<close>).
\<close>

definition clean_listing :: "(string \<rightharpoonup> entry) \<Rightarrow> (string \<rightharpoonup> entry)" where
  "clean_listing listing =
     (\<lambda>item. if item \<notin> set allowed_files \<and> (listing item = Some IsFile \<or> listing item = Some IsDir)
             then None else listing item)"

definition clean_bin :: "state \<Rightarrow> result" where
  "clean_bin st =
     (case bin (installed st) of
        None \<Rightarrow> Inl (FileNotFoundError ''bin'', st)
      | Some listing \<Rightarrow> Inr (st\<lparr>installed := (installed st)\<lparr>bin := Some (clean_listing listing)\<rparr>\<rparr>))"

subsection \<open>The whole run\<close>


text \<open>
  The loop starts from an empty \<^verbatim>\<open>updated_libs\<close> (line 633); the two projects, the strip and
  the cleaning of \<^verbatim>\<open>bin\<close> follow.
\<close>

definition orchestrate :: "world \<Rightarrow> flags \<Rightarrow> dep list \<Rightarrow> state \<Rightarrow> result" where
  "orchestrate w fl ds st =
     (case dep_loop w fl ds (st\<lparr>updated_libs := {}\<rparr>) of
        Inl e \<Rightarrow> Inl e
      | Inr st1 \<Rightarrow>
          (case build_ffmpeg w fl st1 of
             Inl e \<Rightarrow> Inl e
           | Inr st2 \<Rightarrow>
               (case build_mpv w fl st2 of
                  Inl e \<Rightarrow> Inl e
                | Inr st3 \<Rightarrow> clean_bin (strip_bins w allowed_files st3))))"


subsection \<open>Vocabulary for the properties\<close>

text \<open>A step only adds to the record.\<close>

definition extends :: "state \<Rightarrow> result \<Rightarrow> bool" where
  "extends st r = prefix (trace st) (trace (final r))"

text \<open>The result of an acquisition without the flag, and the flag.\<close>

definition acq_result :: "(error \<times> state) + (bool \<times> state) \<Rightarrow> result" where
  "acq_result a = (case a of Inl e \<Rightarrow> Inl e | Inr (changed, st) \<Rightarrow> Inr st)"

text \<open>The acquisition of a package succeeds and reports no change.\<close>

definition unchanged :: "(error \<times> state) + (bool \<times> state) \<Rightarrow> bool" where
  "unchanged a = (case a of Inl e \<Rightarrow> False | Inr (changed, st) \<Rightarrow> \<not> changed)"

text \<open>The packages that a record says were entered for rebuild, completed, or skipped.\<close>

definition building :: "event list \<Rightarrow> string set" where
  "building evs = {n. Building n \<in> set evs}"

definition built :: "event list \<Rightarrow> string set" where
  "built evs = {n. Built n \<in> set evs}"

definition skipped :: "event list \<Rightarrow> string set" where
  "skipped evs = {n. Skipping n \<in> set evs}"

text \<open>A step only adds events about one package.\<close>

definition about :: "string \<Rightarrow> state \<Rightarrow> result \<Rightarrow> bool" where
  "about n st r = (extends st r \<and> (\<forall>e \<in> set (events st r). subject e = Some n))"


text \<open>The events before the decision are those of the acquisition and the integrity check.\<close>

definition before_decision :: "string \<Rightarrow> event list \<Rightarrow> bool" where
  "before_decision n evs =
     (\<forall>e \<in> set evs. e = Clone n \<or> e = Pull n \<or> e = Download n \<or> e = Forcing n)"

text \<open>
  The invariant of the dependency list: every entry of \<open>depends_on\<close> is declared earlier,
  and no name is declared twice. \<open>seen\<close> holds the names declared so far.
\<close>

fun deps_in_order :: "string list \<Rightarrow> dep list \<Rightarrow> bool" where
  "deps_in_order seen [] = True"
| "deps_in_order seen (d # ds) =
     (set (depends_on d) \<subseteq> set seen \<and> name d \<notin> set seen \<and> deps_in_order (name d # seen) ds)"

text \<open>The list is in order and does not declare the two top-level projects.\<close>

definition well_formed :: "dep list \<Rightarrow> bool" where
  "well_formed ds =
     (deps_in_order [] ds \<and> ''ffmpeg'' \<notin> set (map name ds) \<and> ''mpv'' \<notin> set (map name ds))"

text \<open>An acquisition succeeds.\<close>

definition acquired :: "(error \<times> state) + (bool \<times> state) \<Rightarrow> bool" where
  "acquired a = (case a of Inl e \<Rightarrow> False | Inr p \<Rightarrow> True)"

text \<open>
  The downstream set of a package \<open>q\<close> in a dependency list: the packages that depend on
  \<open>q\<close>, and those that depend on a package of the downstream set.
\<close>

inductive downstream :: "dep list \<Rightarrow> string \<Rightarrow> string \<Rightarrow> bool" for ds :: "dep list" and q :: string where
  direct: "d \<in> set ds \<Longrightarrow> q \<in> set (depends_on d) \<Longrightarrow> downstream ds q (name d)"
| via: "downstream ds q m \<Longrightarrow> d \<in> set ds \<Longrightarrow> m \<in> set (depends_on d) \<Longrightarrow> downstream ds q (name d)"

text \<open>An event of the part of the run after the dependency loop.\<close>

definition top_event :: "event \<Rightarrow> bool" where
  "top_event e = (subject e = Some ''ffmpeg'' \<or> subject e = Some ''mpv'' \<or> (\<exists>c. e = Exec ''bin'' c))"

text \<open>
  A package is settled in a state: its marker is there, its acquisition reports no
  change, and its expected artifact is in place.
\<close>

definition settled :: "world \<Rightarrow> flags \<Rightarrow> state \<Rightarrow> dep \<Rightarrow> bool" where
  "settled w fl st d =
     (name d \<in> markers st \<and> unchanged (acquire w fl d st) \<and> \<not> output_missing (name d) st)"

text \<open>The events of a synchronisation that reports no change.\<close>

definition pulls :: "string \<Rightarrow> event list \<Rightarrow> bool" where
  "pulls n evs = (\<forall>e \<in> set evs. e = Pull n)"

subsection \<open>A sample world and sample states\<close>

text \<open>
  A world in which every command succeeds, no upstream repository has moved, and the
  tools leave the install prefix as it is.
\<close>

definition calm_world :: world where
  "calm_world =
     \<lparr>clone_ok = (\<lambda>n. True), pull = (\<lambda>n. Some False), download_ok = (\<lambda>n. True),
      src_has = (\<lambda>n f. True), exit_code = (\<lambda>n c. 0), effect = (\<lambda>n c t. t),
      purge = (\<lambda>n t. t), sweep = (\<lambda>t. t), sdl_headers = (\<lambda>t. t), bootstrap = (\<lambda>t. t)\<rparr>"

definition no_flags :: flags where
  "no_flags = \<lparr>clean_mode = False, force_resume = False, skip_updates = False, force_mpv = False\<rparr>"








text \<open>
  States that differ from \<open>full_state\<close> in one place: the metadata file of \<^verbatim>\<open>expat\<close> or of
  \<^verbatim>\<open>zlib\<close> has been deleted, or the checkout of \<^verbatim>\<open>libarchive\<close> is gone.
\<close>

definition without_file :: "string \<times> string \<Rightarrow> state \<Rightarrow> state" where
  "without_file f st = st\<lparr>installed := (installed st)\<lparr>files := files (installed st) - {f}\<rparr>\<rparr>"

definition without_repo :: "string \<Rightarrow> state \<Rightarrow> state" where
  "without_repo n st = st\<lparr>repositories := (repositories st)(n := Absent)\<rparr>"

definition skip_flags :: flags where
  "skip_flags = no_flags\<lparr>skip_updates := True\<rparr>"

text \<open>
  Worlds that differ from \<open>calm_world\<close>: upstream \<^verbatim>\<open>expat\<close> has moved; or every upstream has
  moved and every command fails.
\<close>

definition moved_world :: world where
  "moved_world = calm_world\<lparr>pull := (\<lambda>n. if n = ''expat'' then Some True else Some False)\<rparr>"

definition failing_world :: world where
  "failing_world = calm_world\<lparr>pull := (\<lambda>n. Some True), exit_code := (\<lambda>n c. 1)\<rparr>"

section \<open>Properties of \<^verbatim>\<open>patch_pc\<close>\<close>











text \<open>
  Claim C9: for a path that does not name an existing file (it names nothing, or a
  directory), \<^verbatim>\<open>patch_pc\<close> of either script returns the file system as it was: no file is
  created and none is modified. The functions have no error result: the only statement
  outside the \<^verbatim>\<open>try\<close> is the \<^verbatim>\<open>os.path.exists\<close> test.
\<close>

theorem patch_pc_missing_noop:
  assumes "\<forall>c. fs path \<noteq> Some (File c)"
  shows "patch_pc_v1 path libs fs = fs \<and> patch_pc_v2 mu path libs fs = fs"
  using assms
  by (auto simp: patch_pc_v1_def patch_pc_v2_def split: option.splits node.splits)

theorem patch_pc_missing_noop_witness:
  "(\<forall>c. sample_fs ''lib/pkgconfig/absent.pc'' \<noteq> Some (File c)) \<and>
   patch_pc_v1 ''lib/pkgconfig/absent.pc'' ''-lm'' sample_fs = sample_fs \<and>
   patch_pc_v2 ''/c/b/working/../msys2/ucrt64'' ''lib/pkgconfig/absent.pc'' ''-lm'' sample_fs
     = sample_fs \<and>
   patch_pc_v1 ''lib/pkgconfig/zimg.pc'' ''-lm'' sample_fs \<noteq> sample_fs"
proof -
  have h: "\<forall>c. sample_fs ''lib/pkgconfig/absent.pc'' \<noteq> Some (File c)"
    by (simp add: sample_fs_def)
  have "patch_pc_v1 ''lib/pkgconfig/zimg.pc'' ''-lm'' sample_fs ''lib/pkgconfig/zimg.pc''
          \<noteq> sample_fs ''lib/pkgconfig/zimg.pc''"
    by (simp add: patch_pc_v1_def sample_fs_def sample_pc_def patch_pc_text_v1_def newline_def)
  then have ne: "patch_pc_v1 ''lib/pkgconfig/zimg.pc'' ''-lm'' sample_fs \<noteq> sample_fs"
    by metis
  from h ne
    patch_pc_missing_noop [where fs = sample_fs and path = "''lib/pkgconfig/absent.pc''"
      and libs = "''-lm''" and mu = "''/c/b/working/../msys2/ucrt64''"]
  show ?thesis by blast
qed

section \<open>Properties of the orchestrator of \<^verbatim>\<open>build_v2_clang.py\<close>\<close>

subsection \<open>The record only grows, and each step writes about its own package\<close>


lemma final_simps [simp]: "final (Inl (e, st)) = st" "final (Inr st) = st"
  by (simp_all add: final_def)

lemma finished_simps [simp]: "finished (Inl x) = False" "finished (Inr st) = True"
  by (simp_all add: finished_def)

lemma events_self [simp]: "events st (Inr st) = []" "events st (Inl (e, st)) = []"
  by (simp_all add: events_def)

lemma extends_self [simp]: "extends st (Inr st)" "extends st (Inl (e, st))"
  by (simp_all add: extends_def)


lemma extends_trans:
  assumes "extends st (Inr st1)" "extends st1 r"
  shows "extends st r" "events st r = events st (Inr st1) @ events st1 r"
proof -
  from assms show "extends st r" by (auto simp: extends_def)
  from assms obtain a b where a: "trace st1 = trace st @ a" and b: "trace (final r) = trace st1 @ b"
    by (auto simp: extends_def prefix_def)
  then show "events st r = events st (Inr st1) @ events st1 r"
    by (simp add: events_def)
qed

lemma extendsI: "trace (final r) = trace st @ evs \<Longrightarrow> extends st r \<and> events st r = evs"
  by (simp add: extends_def events_def)


lemma about_trans:
  assumes "about n st (Inr st1)" "about n st1 r"
  shows "about n st r"
  using assms extends_trans [of st st1 r] by (auto simp: about_def)

lemma about_self [simp]: "about n st (Inr st)" "about n st (Inl (e, st))"
  by (simp_all add: about_def)

lemma about_trace:
  assumes "trace (final r) = trace st @ evs" "\<forall>e \<in> set evs. subject e = Some n"
  shows "about n st r"
  using assms extendsI [of r st evs] by (simp add: about_def)

lemma run_about: "about n st (run w n c st)"
  by (rule about_trace [where evs = "[Exec n c]"]) (simp_all add: run_def Let_def log_def)

lemma mrun_about: "about n st (mrun w n cs st)"
proof (induction cs arbitrary: st)
  case Nil
  show ?case by simp
next
  case (Cons c cs)
  show ?case
  proof (cases "run w n c st")
    case (Inl e)
    with run_about [of n st w c] show ?thesis by simp
  next
    case (Inr st1)
    with run_about [of n st w c] Cons.IH [of st1] show ?thesis
      by (auto intro: about_trans)
  qed
qed

lemma git_sync_about: "about n st (acq_result (git_sync w fl n st))"
  by (rule about_trace [where evs = "events st (acq_result (git_sync w fl n st))"])
     (auto simp: git_sync_def acq_result_def Let_def log_def events_def split: option.splits)

lemma tarball_sync_about: "about n st (acq_result (tarball_sync w n st))"
  by (rule about_trace [where evs = "events st (acq_result (tarball_sync w n st))"])
     (auto simp: tarball_sync_def acq_result_def Let_def log_def events_def split: option.splits)

lemma acquire_about: "about (name d) st (acq_result (acquire w fl d st))"
  using git_sync_about tarball_sync_about by (simp add: acquire_def acq_result_def)

lemma integrity_check_about: "about n st (Inr (integrity_check n st))"
  by (rule about_trace [where evs = "events st (Inr (integrity_check n st))"])
     (auto simp: integrity_check_def log_def events_def)

lemma add_files_trace [simp]: "trace (add_files fs st) = trace st"
  by (simp add: add_files_def)

lemma rebuild_about: "about (name d) st (rebuild w d st)"
proof -
  let ?n = "name d"
  let ?st1 = "(log (Building ?n) st)\<lparr>installed := purge w ?n (installed st)\<rparr>"
  have a1: "about ?n st (Inr ?st1)"
    by (rule about_trace [where evs = "[Building ?n]"]) (simp_all add: log_def)
  show ?thesis
  proof (cases "repositories st ?n = Absent")
    case True
    have "about ?n st (Inl (FileNotFoundError ?n, ?st1))"
      by (rule about_trace [where evs = "[Building ?n]"]) (simp_all add: log_def)
    with True show ?thesis by (simp add: rebuild_def Let_def log_def)
  next
    case False
    show ?thesis
    proof (cases "mrun w ?n (build_cmds w d) ?st1")
      case (Inl e)
      with mrun_about [of ?n ?st1 w "build_cmds w d"] a1 False show ?thesis
        by (auto simp: rebuild_def Let_def log_def intro: about_trans)
    next
      case (Inr st2)
      with mrun_about [of ?n ?st1 w "build_cmds w d"] a1 have a2: "about ?n st (Inr st2)"
        by (auto intro: about_trans)
      let ?st5 = "add_files (written_after_marker ?n)
                    ((log (Built ?n) (add_files (written_before_marker ?n) st2))
                       \<lparr>markers := insert ?n (markers (add_files (written_before_marker ?n) st2)),
                        updated_libs := insert ?n (updated_libs (add_files (written_before_marker ?n) st2))\<rparr>)"
      have "about ?n st2 (Inr ?st5)"
        by (rule about_trace [where evs = "[Built ?n]"]) (simp_all add: log_def)
      with a2 have "about ?n st (Inr ?st5)" by (rule about_trans)
      with Inr False show ?thesis by (simp add: rebuild_def Let_def log_def)
    qed
  qed
qed

lemma process_dep_about: "about (name d) st (process_dep w fl d st)"
proof (cases "acquire w fl d st")
  case (Inl e)
  with acquire_about [of d st w fl] show ?thesis
    by (simp add: process_dep_def acq_result_def)
next
  case (Inr p)
  obtain ch st1 where p: "p = (ch, st1)" by (cases p)
  with Inr acquire_about [of d st w fl] have a1: "about (name d) st (Inr st1)"
    by (simp add: acq_result_def)
  let ?st2 = "integrity_check (name d) st1"
  from a1 integrity_check_about [of "name d" st1] have a2: "about (name d) st (Inr ?st2)"
    by (rule about_trans)
  show ?thesis
  proof (cases "stale fl d ch ?st2")
    case True
    with Inr p a2 rebuild_about [of d ?st2 w] show ?thesis
      by (auto simp: process_dep_def Let_def intro: about_trans)
  next
    case False
    have "about (name d) ?st2 (Inr (log (Skipping (name d)) ?st2))"
      by (rule about_trace [where evs = "[Skipping (name d)]"]) (simp_all add: log_def)
    with a2 have "about (name d) st (Inr (log (Skipping (name d)) ?st2))" by (rule about_trans)
    with False Inr p show ?thesis by (simp add: process_dep_def Let_def)
  qed
qed



subsection \<open>What the steps leave alone\<close>

lemma run_frame:
  "markers (final (run w n c st)) = markers st"
  "updated_libs (final (run w n c st)) = updated_libs st"
  "repositories (final (run w n c st)) = repositories st"
  "tarballs (final (run w n c st)) = tarballs st"
  by (simp_all add: run_def Let_def log_def)

lemma mrun_frame:
  "markers (final (mrun w n cs st)) = markers st \<and>
   updated_libs (final (mrun w n cs st)) = updated_libs st \<and>
   repositories (final (mrun w n cs st)) = repositories st \<and>
   tarballs (final (mrun w n cs st)) = tarballs st"
proof (induction cs arbitrary: st)
  case Nil
  show ?case by simp
next
  case (Cons c cs)
  show ?case
  proof (cases "run w n c st")
    case (Inl e)
    with run_frame [of w n c st] show ?thesis by simp
  next
    case (Inr st1)
    with run_frame [of w n c st] Cons.IH [of st1] show ?thesis by simp
  qed
qed


lemma mrun_execs: "\<forall>e \<in> set (events st (mrun w n cs st)). \<exists>c. e = Exec n c"
proof (induction cs arbitrary: st)
  case Nil
  show ?case by simp
next
  case (Cons c cs)
  have r: "extends st (run w n c st)" "events st (run w n c st) = [Exec n c]"
    by (simp_all add: run_def Let_def log_def extends_def events_def)
  show ?case
  proof (cases "run w n c st")
    case (Inl e)
    with r show ?thesis by simp
  next
    case (Inr st1)
    with r have e: "extends st (Inr st1)" "events st (Inr st1) = [Exec n c]" by simp_all
    from mrun_about [of n st1 w cs] have "extends st1 (mrun w n cs st1)" by (simp add: about_def)
    from extends_trans(2) [OF e(1) this] e(2) Cons.IH [of st1] Inr
    show ?thesis by auto
  qed
qed

lemma git_sync_frame:
  "markers (final (acq_result (git_sync w fl n st))) = markers st \<and>
   installed (final (acq_result (git_sync w fl n st))) = installed st \<and>
   updated_libs (final (acq_result (git_sync w fl n st))) = updated_libs st \<and>
   tarballs (final (acq_result (git_sync w fl n st))) = tarballs st"
proof (cases "repositories st n = Git")
  case True
  then show ?thesis
    by (cases "pull w n") (simp_all add: git_sync_def acq_result_def log_def)
next
  case False
  then show ?thesis
    by (simp add: git_sync_def acq_result_def log_def Let_def)
qed

lemma git_sync_events:
  "\<forall>e \<in> set (events st (acq_result (git_sync w fl n st))). e = Clone n \<or> e = Pull n"
proof (cases "repositories st n = Git")
  case True
  then show ?thesis
    by (cases "pull w n") (simp_all add: git_sync_def acq_result_def log_def events_def)
next
  case False
  then show ?thesis
    by (simp add: git_sync_def acq_result_def log_def Let_def events_def)
qed

lemma tarball_sync_frame:
  "markers (final (acq_result (tarball_sync w n st))) = markers st \<and>
   installed (final (acq_result (tarball_sync w n st))) = installed st \<and>
   updated_libs (final (acq_result (tarball_sync w n st))) = updated_libs st"
  by (simp add: tarball_sync_def acq_result_def log_def Let_def)

lemma tarball_sync_events:
  "\<forall>e \<in> set (events st (acq_result (tarball_sync w n st))). e = Download n"
  by (simp add: tarball_sync_def acq_result_def log_def Let_def events_def)

lemma acquire_frame:
  "markers (final (acq_result (acquire w fl d st))) = markers st"
  "installed (final (acq_result (acquire w fl d st))) = installed st"
  "updated_libs (final (acq_result (acquire w fl d st))) = updated_libs st"
  using git_sync_frame [of w fl "name d" st] tarball_sync_frame [of w "name d" st]
  by (simp_all add: acquire_def acq_result_def)

lemma acquire_events:
  "\<forall>e \<in> set (events st (acq_result (acquire w fl d st))).
     e = Clone (name d) \<or> e = Pull (name d) \<or> e = Download (name d)"
  using git_sync_events [of st w fl "name d"] tarball_sync_events [of st w "name d"]
  by (auto simp: acquire_def acq_result_def)

lemma integrity_check_frame:
  "installed (integrity_check n st) = installed st"
  "updated_libs (integrity_check n st) = updated_libs st"
  "repositories (integrity_check n st) = repositories st"
  "markers (integrity_check n st) \<subseteq> markers st"
  "markers st - {n} \<subseteq> markers (integrity_check n st)"
  by (auto simp: integrity_check_def log_def)

lemma integrity_check_events:
  "\<forall>e \<in> set (events st (Inr (integrity_check n st))). e = Forcing n"
  by (auto simp: integrity_check_def log_def events_def)

lemma integrity_check_kept:
  "n \<in> markers (integrity_check n st) \<Longrightarrow> integrity_check n st = st"
  by (auto simp: integrity_check_def log_def split: if_splits)

lemma integrity_check_forced:
  "output_missing n st \<Longrightarrow> n \<notin> markers (integrity_check n st)"
  by (auto simp: integrity_check_def log_def)

lemma integrity_check_intact:
  "\<not> output_missing n st \<Longrightarrow> integrity_check n st = st"
  by (auto simp: integrity_check_def)

subsection \<open>The rebuild branch\<close>


lemma rebuild_events:
  "\<exists>xs. events st (rebuild w d st)
          = Building (name d) # xs @ (if finished (rebuild w d st) then [Built (name d)] else [])
        \<and> (\<forall>e \<in> set xs. \<exists>c. e = Exec (name d) c)"
proof -
  let ?n = "name d"
  let ?st1 = "(log (Building ?n) st)\<lparr>installed := purge w ?n (installed st)\<rparr>"
  have e1: "extends st (Inr ?st1)" "events st (Inr ?st1) = [Building ?n]"
    by (simp_all add: extends_def events_def log_def)
  show ?thesis
  proof (cases "repositories st ?n = Absent")
    case True
    then show ?thesis by (simp add: rebuild_def Let_def log_def events_def)
  next
    case False
    let ?m = "mrun w ?n (build_cmds w d) ?st1"
    from mrun_about [of ?n ?st1 w "build_cmds w d"] have em: "extends ?st1 ?m"
      by (simp add: about_def)
    note ex = mrun_execs [of ?st1 w ?n "build_cmds w d"]
    show ?thesis
    proof (cases ?m)
      case (Inl e)
      with False have r: "rebuild w d st = ?m" by (simp add: rebuild_def Let_def log_def)
      from extends_trans(2) [OF e1(1) em] e1(2) r Inl ex show ?thesis by auto
    next
      case (Inr st2)
      let ?st5 = "add_files (written_after_marker ?n)
                    ((log (Built ?n) (add_files (written_before_marker ?n) st2))
                       \<lparr>markers := insert ?n (markers (add_files (written_before_marker ?n) st2)),
                        updated_libs := insert ?n (updated_libs (add_files (written_before_marker ?n) st2))\<rparr>)"
      from Inr False have r: "rebuild w d st = Inr ?st5" by (simp add: rebuild_def Let_def log_def)
      from em Inr have e2: "extends ?st1 (Inr st2)" by simp
      have e3: "extends st2 (Inr ?st5)" "events st2 (Inr ?st5) = [Built ?n]"
        by (simp_all add: extends_def events_def log_def)
      from extends_trans [OF e1(1) e2] have e4: "extends st (Inr st2)"
        "events st (Inr st2) = [Building ?n] @ events ?st1 (Inr st2)" using e1(2) by simp_all
      from extends_trans(2) [OF e4(1) e3(1)] e3(2) e4(2)
      have "events st (Inr ?st5) = Building ?n # events ?st1 (Inr st2) @ [Built ?n]" by simp
      with r ex Inr show ?thesis by auto
    qed
  qed
qed

lemma rebuild_frame:
  "markers (final (rebuild w d st))
     = (if finished (rebuild w d st) then insert (name d) (markers st) else markers st)"
  "updated_libs (final (rebuild w d st))
     = (if finished (rebuild w d st) then insert (name d) (updated_libs st) else updated_libs st)"
proof -
  let ?n = "name d"
  let ?st1 = "(log (Building ?n) st)\<lparr>installed := purge w ?n (installed st)\<rparr>"
  note f = mrun_frame [of w ?n "build_cmds w d" ?st1]
  show "markers (final (rebuild w d st))
     = (if finished (rebuild w d st) then insert (name d) (markers st) else markers st)"
    using f by (cases "mrun w ?n (build_cmds w d) ?st1")
               (auto simp: rebuild_def Let_def log_def add_files_def)
  show "updated_libs (final (rebuild w d st))
     = (if finished (rebuild w d st) then insert (name d) (updated_libs st) else updated_libs st)"
    using f by (cases "mrun w ?n (build_cmds w d) ?st1")
               (auto simp: rebuild_def Let_def log_def add_files_def)
qed

subsection \<open>One package: the three ways through \<open>process_dep\<close>\<close>

lemma process_dep_cases [case_names failed rebuilt skipped]:
  obtains
    (failed) e st1 where "acquire w fl d st = Inl (e, st1)"
      "process_dep w fl d st = Inl (e, st1)"
  | (rebuilt) ch st1 where "acquire w fl d st = Inr (ch, st1)"
      "stale fl d ch (integrity_check (name d) st1)"
      "process_dep w fl d st = rebuild w d (integrity_check (name d) st1)"
  | (skipped) ch st1 where "acquire w fl d st = Inr (ch, st1)"
      "\<not> stale fl d ch (integrity_check (name d) st1)"
      "process_dep w fl d st = Inr (log (Skipping (name d)) (integrity_check (name d) st1))"
proof (cases "acquire w fl d st")
  case (Inl p)
  obtain e st1 where "p = (e, st1)" by (cases p)
  with Inl failed show ?thesis by (simp add: process_dep_def)
next
  case (Inr p)
  obtain ch st1 where p: "p = (ch, st1)" by (cases p)
  show ?thesis
  proof (cases "stale fl d ch (integrity_check (name d) st1)")
    case True
    with Inr p rebuilt show ?thesis by (simp add: process_dep_def Let_def)
  next
    case False
    with Inr p skipped show ?thesis by (simp add: process_dep_def Let_def)
  qed
qed

lemma acquired_events:
  assumes "acquire w fl d st = Inr (ch, st1)"
  shows "extends st (Inr (integrity_check (name d) st1))"
    and "before_decision (name d) (events st (Inr (integrity_check (name d) st1)))"
proof -
  from assms acquire_about [of d st w fl] have e1: "extends st (Inr st1)"
    by (simp add: about_def acq_result_def)
  from integrity_check_about [of "name d" st1]
  have e2: "extends st1 (Inr (integrity_check (name d) st1))" by (simp add: about_def)
  from extends_trans [OF e1 e2] show "extends st (Inr (integrity_check (name d) st1))" by simp
  from assms acquire_events [of st w fl d]
  have "\<forall>e \<in> set (events st (Inr st1)). e = Clone (name d) \<or> e = Pull (name d) \<or> e = Download (name d)"
    by (simp add: acq_result_def)
  with extends_trans(2) [OF e1 e2] integrity_check_events [of st1 "name d"]
  show "before_decision (name d) (events st (Inr (integrity_check (name d) st1)))"
    by (auto simp: before_decision_def)
qed

lemma process_dep_events_failed:
  assumes "acquire w fl d st = Inl (e, st1)"
  shows "before_decision (name d) (events st (process_dep w fl d st))"
  using assms acquire_events [of st w fl d]
  by (auto simp: process_dep_def acq_result_def before_decision_def)

lemma process_dep_events_rebuilt:
  assumes "acquire w fl d st = Inr (ch, st1)" "stale fl d ch (integrity_check (name d) st1)"
  shows "\<exists>pre xs. events st (process_dep w fl d st)
           = pre @ Building (name d) # xs @
               (if finished (process_dep w fl d st) then [Built (name d)] else [])
         \<and> before_decision (name d) pre \<and> (\<forall>e \<in> set xs. \<exists>c. e = Exec (name d) c)"
proof -
  let ?st2 = "integrity_check (name d) st1"
  from assms have r: "process_dep w fl d st = rebuild w d ?st2"
    by (simp add: process_dep_def Let_def)
  note a = acquired_events [OF assms(1)]
  from rebuild_about [of d ?st2 w] have e: "extends ?st2 (rebuild w d ?st2)"
    by (simp add: about_def)
  from rebuild_events [of ?st2 w d] obtain xs where
    xs: "events ?st2 (rebuild w d ?st2)
           = Building (name d) # xs @ (if finished (rebuild w d ?st2) then [Built (name d)] else [])"
        "\<forall>e \<in> set xs. \<exists>c. e = Exec (name d) c" by blast
  from extends_trans(2) [OF a(1) e] xs(1) r
  have "events st (process_dep w fl d st)
           = events st (Inr ?st2) @ Building (name d) # xs @
               (if finished (process_dep w fl d st) then [Built (name d)] else [])" by simp
  with a(2) xs(2) show ?thesis by blast
qed

lemma process_dep_events_skipped:
  assumes "acquire w fl d st = Inr (ch, st1)" "\<not> stale fl d ch (integrity_check (name d) st1)"
  shows "\<exists>pre. events st (process_dep w fl d st) = pre @ [Skipping (name d)]
               \<and> before_decision (name d) pre"
proof -
  let ?st2 = "integrity_check (name d) st1"
  from assms have r: "process_dep w fl d st = Inr (log (Skipping (name d)) ?st2)"
    by (simp add: process_dep_def Let_def)
  note a = acquired_events [OF assms(1)]
  have e: "extends ?st2 (Inr (log (Skipping (name d)) ?st2))"
    "events ?st2 (Inr (log (Skipping (name d)) ?st2)) = [Skipping (name d)]"
    by (simp_all add: extends_def events_def log_def)
  from extends_trans(2) [OF a(1) e(1)] e(2) r
  have "events st (process_dep w fl d st) = events st (Inr ?st2) @ [Skipping (name d)]" by simp
  with a(2) show ?thesis by blast
qed

lemma before_decision_no [simp]:
  "before_decision n evs \<Longrightarrow> Skipping x \<notin> set evs"
  "before_decision n evs \<Longrightarrow> Building x \<notin> set evs"
  "before_decision n evs \<Longrightarrow> Built x \<notin> set evs"
  by (auto simp: before_decision_def)


lemma process_dep_building:
  assumes "Building x \<in> set (events st (process_dep w fl d st))"
  shows "x = name d \<and> (\<exists>ch st1. acquire w fl d st = Inr (ch, st1)
           \<and> stale fl d ch (integrity_check (name d) st1)
           \<and> process_dep w fl d st = rebuild w d (integrity_check (name d) st1))"
proof (cases rule: process_dep_cases [of w fl d st])
  case (failed e st1)
  from process_dep_events_failed [OF failed(1)] assms show ?thesis by simp
next
  case (rebuilt ch st1)
  from process_dep_events_rebuilt [OF rebuilt(1,2)] assms rebuilt show ?thesis
    by (auto split: if_splits)
next
  case (skipped ch st1)
  from process_dep_events_skipped [OF skipped(1,2)] assms show ?thesis by auto
qed

lemma process_dep_built:
  assumes "Built x \<in> set (events st (process_dep w fl d st))"
  shows "x = name d \<and> finished (process_dep w fl d st)
         \<and> Building (name d) \<in> set (events st (process_dep w fl d st))"
proof (cases rule: process_dep_cases [of w fl d st])
  case (failed e st1)
  from process_dep_events_failed [OF failed(1)] assms show ?thesis by simp
next
  case (rebuilt ch st1)
  from process_dep_events_rebuilt [OF rebuilt(1,2)] assms show ?thesis
    by (auto split: if_splits)
next
  case (skipped ch st1)
  from process_dep_events_skipped [OF skipped(1,2)] assms show ?thesis by auto
qed

lemma process_dep_stale:
  assumes "acquire w fl d st = Inr (ch, st1)" "stale fl d ch (integrity_check (name d) st1)"
  shows "Building (name d) \<in> set (events st (process_dep w fl d st))"
    and "Skipping x \<notin> set (events st (process_dep w fl d st))"
    and "finished (process_dep w fl d st) \<Longrightarrow> Built (name d) \<in> set (events st (process_dep w fl d st))"
  using process_dep_events_rebuilt [OF assms] by (auto split: if_splits)


lemma process_dep_frame:
  "updated_libs st \<subseteq> updated_libs (final (process_dep w fl d st))"
  "updated_libs (final (process_dep w fl d st)) \<subseteq> insert (name d) (updated_libs st)"
  "markers (final (process_dep w fl d st)) \<subseteq> insert (name d) (markers st)"
  "markers st - {name d} \<subseteq> markers (final (process_dep w fl d st))"
proof -
  note af = acquire_frame [of w fl d st]
  have "updated_libs st \<subseteq> updated_libs (final (process_dep w fl d st)) \<and>
    updated_libs (final (process_dep w fl d st)) \<subseteq> insert (name d) (updated_libs st) \<and>
    markers (final (process_dep w fl d st)) \<subseteq> insert (name d) (markers st) \<and>
    markers st - {name d} \<subseteq> markers (final (process_dep w fl d st))"
  proof (cases rule: process_dep_cases [of w fl d st])
    case (failed e st1)
    with af show ?thesis by (auto simp: acq_result_def)
  next
    case (rebuilt ch st1)
    from rebuilt(1) af have "markers st1 = markers st" "updated_libs st1 = updated_libs st"
      by (simp_all add: acq_result_def)
    with rebuilt(3) rebuild_frame [where w = w and d = d and st = "integrity_check (name d) st1"]
      integrity_check_frame [where n = "name d" and st = st1]
    show ?thesis by (auto split: if_splits)
  next
    case (skipped ch st1)
    from skipped(1) af have "markers st1 = markers st" "updated_libs st1 = updated_libs st"
      by (simp_all add: acq_result_def)
    with skipped(3) integrity_check_frame [where n = "name d" and st = st1]
    show ?thesis by (auto simp: log_def)
  qed
  then show "updated_libs st \<subseteq> updated_libs (final (process_dep w fl d st))"
  "updated_libs (final (process_dep w fl d st)) \<subseteq> insert (name d) (updated_libs st)"
  "markers (final (process_dep w fl d st)) \<subseteq> insert (name d) (markers st)"
  "markers st - {name d} \<subseteq> markers (final (process_dep w fl d st))" by blast+
qed

lemma process_dep_built_updated:
  assumes "Built x \<in> set (events st (process_dep w fl d st))"
  shows "x \<in> updated_libs (final (process_dep w fl d st))"
    and "x \<in> markers (final (process_dep w fl d st))"
proof -
  from process_dep_built [OF assms] have x: "x = name d" and f: "finished (process_dep w fl d st)"
    by simp_all
  from process_dep_building [of "name d" st w fl d] process_dep_built [OF assms]
  obtain ch st1 where r: "process_dep w fl d st = rebuild w d (integrity_check (name d) st1)"
    by auto
  with f rebuild_frame [where w = w and d = d and st = "integrity_check (name d) st1"] x
  show "x \<in> updated_libs (final (process_dep w fl d st))"
    and "x \<in> markers (final (process_dep w fl d st))" by simp_all
qed

subsection \<open>The dependency loop\<close>

lemma dep_loop_Inl:
  "process_dep w fl d st = Inl x \<Longrightarrow> dep_loop w fl (d # ds) st = Inl x"
  by simp

lemma process_dep_extends: "extends st (process_dep w fl d st)"
  using process_dep_about [of d st w fl] by (simp add: about_def)

lemma dep_loop_extends: "extends st (dep_loop w fl ds st)"
proof (induction ds arbitrary: st)
  case Nil
  show ?case by simp
next
  case (Cons d ds)
  show ?case
  proof (cases "process_dep w fl d st")
    case (Inl x)
    with process_dep_extends [of st w fl d] show ?thesis by simp
  next
    case (Inr st1)
    with process_dep_extends [of st w fl d] have "extends st (Inr st1)" by simp
    from extends_trans(1) [OF this Cons.IH [of st1]] Inr show ?thesis by simp
  qed
qed

lemma dep_loop_Inr:
  assumes "process_dep w fl d st = Inr st1"
  shows "dep_loop w fl (d # ds) st = dep_loop w fl ds st1"
    and "events st (dep_loop w fl (d # ds) st)
           = events st (process_dep w fl d st) @ events st1 (dep_loop w fl ds st1)"
proof -
  from assms show "dep_loop w fl (d # ds) st = dep_loop w fl ds st1" by simp
  from assms process_dep_extends [of st w fl d] have "extends st (Inr st1)" by simp
  from extends_trans(2) [OF this dep_loop_extends [of st1 w fl ds]] assms
  show "events st (dep_loop w fl (d # ds) st)
           = events st (process_dep w fl d st) @ events st1 (dep_loop w fl ds st1)" by simp
qed

lemma dep_loop_subjects:
  "\<forall>e \<in> set (events st (dep_loop w fl ds st)). \<exists>d \<in> set ds. subject e = Some (name d)"
proof (induction ds arbitrary: st)
  case Nil
  show ?case by simp
next
  case (Cons d ds)
  from process_dep_about [of d st w fl]
  have s: "\<forall>e \<in> set (events st (process_dep w fl d st)). subject e = Some (name d)"
    by (simp add: about_def)
  show ?case
  proof (cases "process_dep w fl d st")
    case (Inl x)
    with s show ?thesis by simp
  next
    case (Inr st1)
    from dep_loop_Inr(2) [OF Inr] s Cons.IH [of st1] show ?thesis by auto
  qed
qed

lemma dep_loop_frame:
  "updated_libs st \<subseteq> updated_libs (final (dep_loop w fl ds st)) \<and>
   updated_libs (final (dep_loop w fl ds st)) \<subseteq> updated_libs st \<union> set (map name ds) \<and>
   markers (final (dep_loop w fl ds st)) \<subseteq> markers st \<union> set (map name ds) \<and>
   markers st - set (map name ds) \<subseteq> markers (final (dep_loop w fl ds st))"
proof (induction ds arbitrary: st)
  case Nil
  show ?case by simp
next
  case (Cons d ds)
  note p = process_dep_frame [where st = st and w = w and fl = fl and d = d]
  show ?case
  proof (cases "process_dep w fl d st")
    case (Inl x)
    with p show ?thesis by auto
  next
    case (Inr st1)
    with p Cons.IH [of st1] show ?thesis by auto
  qed
qed

lemma dep_loop_built_updated:
  "Built x \<in> set (events st (dep_loop w fl ds st)) \<Longrightarrow> x \<in> updated_libs (final (dep_loop w fl ds st))"
proof (induction ds arbitrary: st)
  case Nil
  then show ?case by simp
next
  case (Cons d ds)
  show ?case
  proof (cases "process_dep w fl d st")
    case (Inl e)
    with Cons.prems process_dep_built [of x st w fl d] show ?thesis by auto
  next
    case (Inr st1)
    from Cons.prems dep_loop_Inr(2) [OF Inr]
    consider "Built x \<in> set (events st (process_dep w fl d st))"
      | "Built x \<in> set (events st1 (dep_loop w fl ds st1))" by auto
    then show ?thesis
    proof cases
      case 1
      from process_dep_built_updated(1) [OF 1] Inr have "x \<in> updated_libs st1" by simp
      with dep_loop_frame [of st1 w fl ds] Inr show ?thesis by auto
    next
      case 2
      from Cons.IH [OF 2] Inr show ?thesis by simp
    qed
  qed
qed

lemma deps_in_order_fresh:
  "deps_in_order seen ds \<Longrightarrow> \<forall>d \<in> set ds. name d \<notin> set seen"
proof (induction ds arbitrary: seen)
  case Nil
  show ?case by simp
next
  case (Cons a ds)
  from Cons.prems have "deps_in_order (name a # seen) ds" "name a \<notin> set seen" by simp_all
  with Cons.IH [of "name a # seen"] show ?case by auto
qed

lemma deps_in_order_distinct:
  "deps_in_order seen ds \<Longrightarrow> distinct (map name ds)"
proof (induction ds arbitrary: seen)
  case Nil
  show ?case by simp
next
  case (Cons d ds)
  from Cons.prems have "deps_in_order (name d # seen) ds" by simp
  from deps_in_order_fresh [OF this] Cons.IH [OF this] show ?case by auto
qed

subsection \<open>Propagation along \<open>depends_on\<close>\<close>

lemma process_dep_dep_changed:
  assumes "q \<in> updated_libs st" "q \<in> set (depends_on d)"
  shows "Skipping x \<notin> set (events st (process_dep w fl d st))"
    and "finished (process_dep w fl d st) \<Longrightarrow> Built (name d) \<in> set (events st (process_dep w fl d st))"
proof -
  have "Skipping x \<notin> set (events st (process_dep w fl d st)) \<and>
    (finished (process_dep w fl d st) \<longrightarrow> Built (name d) \<in> set (events st (process_dep w fl d st)))"
  proof (cases rule: process_dep_cases [of w fl d st])
    case (failed e st1)
    from process_dep_events_failed [OF failed(1)] failed(2) show ?thesis by simp
  next
    case (rebuilt ch st1)
    from process_dep_stale [OF rebuilt(1,2)] show ?thesis by simp
  next
    case (skipped ch st1)
    from skipped(1) acquire_frame(3) [of w fl d st] have "updated_libs st1 = updated_libs st"
      by (simp add: acq_result_def)
    with assms integrity_check_frame(2) [where n = "name d" and st = st1]
    have "stale fl d ch (integrity_check (name d) st1)"
      by (auto simp: stale_def dep_changed_def)
    with skipped(2) show ?thesis by simp
  qed
  then show "Skipping x \<notin> set (events st (process_dep w fl d st))"
    and "finished (process_dep w fl d st) \<Longrightarrow> Built (name d) \<in> set (events st (process_dep w fl d st))"
    by simp_all
qed

lemma dep_loop_finished_Cons:
  "finished (dep_loop w fl (d # ds) st) \<Longrightarrow> finished (process_dep w fl d st)"
  by (cases "process_dep w fl d st") simp_all

lemma propagate_known:
  assumes "q \<in> updated_libs st" "p \<in> set ds" "q \<in> set (depends_on p)" "distinct (map name ds)"
  shows "Skipping (name p) \<notin> set (events st (dep_loop w fl ds st)) \<and>
         (finished (dep_loop w fl ds st) \<longrightarrow> Built (name p) \<in> set (events st (dep_loop w fl ds st)))"
  using assms
proof (induction ds arbitrary: st)
  case Nil
  then show ?case by simp
next
  case (Cons d ds)
  from process_dep_about [of d st w fl]
  have s: "\<forall>e \<in> set (events st (process_dep w fl d st)). subject e = Some (name d)"
    by (simp add: about_def)
  show ?case
  proof (cases "p = d")
    case True
    note c = process_dep_dep_changed(1) [OF Cons.prems(1), where d = d and x = "name p" and w = w and fl = fl]
      process_dep_dep_changed(2) [OF Cons.prems(1), where d = d and w = w and fl = fl]
    show ?thesis
    proof (cases "process_dep w fl d st")
      case (Inl x)
      with c True Cons.prems(3) show ?thesis by simp
    next
      case (Inr st1)
      from dep_loop_subjects [of st1 w fl ds] Cons.prems(4) True
      have "Skipping (name p) \<notin> set (events st1 (dep_loop w fl ds st1))" by force
      with dep_loop_Inr(2) [OF Inr] c True Cons.prems(3) Inr show ?thesis by auto
    qed
  next
    case False
    with Cons.prems have pin: "p \<in> set ds" by simp
    then have "name p \<in> name ` set ds" by (rule imageI)
    with Cons.prems(4) have ne: "name p \<noteq> name d" by auto
    from s ne have ns: "Skipping (name p) \<notin> set (events st (process_dep w fl d st))" by force
    show ?thesis
    proof (cases "process_dep w fl d st")
      case (Inl x)
      with ns show ?thesis by simp
    next
      case (Inr st1)
      from process_dep_frame(1) [where st = st and w = w and fl = fl and d = d] Inr Cons.prems(1) have "q \<in> updated_libs st1" by auto
      from Cons.IH [OF this pin Cons.prems(3)] Cons.prems(4)
      have "Skipping (name p) \<notin> set (events st1 (dep_loop w fl ds st1)) \<and>
         (finished (dep_loop w fl ds st1) \<longrightarrow> Built (name p) \<in> set (events st1 (dep_loop w fl ds st1)))"
        by simp
      with dep_loop_Inr [OF Inr] ns show ?thesis by auto
    qed
  qed
qed

lemma propagate_in_order:
  assumes "deps_in_order seen ds" "Built q \<in> set (events st (dep_loop w fl ds st))"
    "p \<in> set ds" "q \<in> set (depends_on p)"
  shows "Skipping (name p) \<notin> set (events st (dep_loop w fl ds st)) \<and>
         (finished (dep_loop w fl ds st) \<longrightarrow> Built (name p) \<in> set (events st (dep_loop w fl ds st)))"
  using assms
proof (induction ds arbitrary: st seen)
  case Nil
  then show ?case by simp
next
  case (Cons d ds)
  from Cons.prems(1) have ord: "deps_in_order (name d # seen) ds"
    and sub: "set (depends_on d) \<subseteq> set seen" and fresh: "name d \<notin> set seen" by simp_all
  note dist = deps_in_order_distinct [OF ord]
  note fr = deps_in_order_fresh [OF ord]
  from process_dep_about [of d st w fl]
  have s: "\<forall>e \<in> set (events st (process_dep w fl d st)). subject e = Some (name d)"
    by (simp add: about_def)
  show ?case
  proof (cases "process_dep w fl d st")
    case (Inl x)
    with Cons.prems(2) process_dep_built [of q st w fl d] show ?thesis by auto
  next
    case (Inr st1)
    note ev = dep_loop_Inr [OF Inr, of ds]
    show ?thesis
    proof (cases "p = d")
      case True
      with Cons.prems(4) sub have qs: "q \<in> set seen" by auto
      with fresh have "q \<noteq> name d" by auto
      with process_dep_built [of q st w fl d]
      have n1: "Built q \<notin> set (events st (process_dep w fl d st))" by auto
      from fr qs have "\<forall>d' \<in> set ds. name d' \<noteq> q" by auto
      with dep_loop_subjects [of st1 w fl ds]
      have "Built q \<notin> set (events st1 (dep_loop w fl ds st1))" by force
      with n1 ev(2) Cons.prems(2) show ?thesis by simp
    next
      case False
      with Cons.prems(3) have pin: "p \<in> set ds" by simp
      with fr have ne: "name p \<noteq> name d" by auto
      from s ne have ns: "Skipping (name p) \<notin> set (events st (process_dep w fl d st))" by force
      from Cons.prems(2) ev(2)
      consider "Built q \<in> set (events st (process_dep w fl d st))"
        | "Built q \<in> set (events st1 (dep_loop w fl ds st1))" by auto
      then have "Skipping (name p) \<notin> set (events st1 (dep_loop w fl ds st1)) \<and>
         (finished (dep_loop w fl ds st1) \<longrightarrow> Built (name p) \<in> set (events st1 (dep_loop w fl ds st1)))"
      proof cases
        case 1
        from process_dep_built_updated(1) [OF 1] Inr have "q \<in> updated_libs st1" by simp
        from propagate_known [OF this pin Cons.prems(4) dist] show ?thesis .
      next
        case 2
        from Cons.IH [OF ord 2 pin Cons.prems(4)] show ?thesis .
      qed
      with ev ns show ?thesis by auto
    qed
  qed
qed

subsection \<open>The top-level projects and the end of the run\<close>

lemma top_level_about: "about n st (top_level w fl n forced prep cmds st)"
proof (cases "git_sync w fl n st")
  case (Inl e)
  with git_sync_about [of n st w fl] show ?thesis
    by (simp add: top_level_def acq_result_def)
next
  case (Inr p)
  obtain ch st1 where p: "p = (ch, st1)" by (cases p)
  with Inr git_sync_about [of n st w fl] have a1: "about n st (Inr st1)"
    by (simp add: acq_result_def)
  show ?thesis
  proof (cases "clean_mode fl \<or> n \<notin> markers st1 \<or> ch \<or> updated_libs st1 \<noteq> {} \<or> forced")
    case False
    have "about n st1 (Inr (log (Skipping n) st1))"
      by (rule about_trace [where evs = "[Skipping n]"]) (simp_all add: log_def)
    with a1 have "about n st (Inr (log (Skipping n) st1))" by (rule about_trans)
    with False Inr p show ?thesis by (simp add: top_level_def)
  next
    case True
    let ?st2 = "(log (Building n) st1)\<lparr>installed := prep (installed st1)\<rparr>"
    have "about n st1 (Inr ?st2)"
      by (rule about_trace [where evs = "[Building n]"]) (simp_all add: log_def)
    with a1 have a2: "about n st (Inr ?st2)" by (rule about_trans)
    have a2': "about n st1 (Inl (FileNotFoundError n, ?st2))"
      by (rule about_trace [where evs = "[Building n]"]) (simp_all add: log_def)
    from a1 a2' have a2'': "about n st (Inl (FileNotFoundError n, ?st2))" by (rule about_trans)
    show ?thesis
    proof (cases "repositories st1 n = Absent")
      case A: True
      with True Inr p a2'' show ?thesis by (simp add: top_level_def Let_def log_def)
    next
      case A: False
      show ?thesis
      proof (cases "mrun w n cmds ?st2")
        case (Inl e)
        with mrun_about [of n ?st2 w cmds] a2 have "about n st (Inl e)"
          by (auto intro: about_trans)
        with Inl True A Inr p show ?thesis by (simp add: top_level_def Let_def log_def)
      next
        case R: (Inr st3)
        with mrun_about [of n ?st2 w cmds] a2 have a3: "about n st (Inr st3)"
          by (auto intro: about_trans)
        have "about n st3 (Inr ((log (Built n) st3)\<lparr>markers := insert n (markers st3)\<rparr>))"
          by (rule about_trace [where evs = "[Built n]"]) (simp_all add: log_def)
        with a3 have "about n st (Inr ((log (Built n) st3)\<lparr>markers := insert n (markers st3)\<rparr>))"
          by (rule about_trans)
        with R True A Inr p show ?thesis by (simp add: top_level_def Let_def log_def)
      qed
    qed
  qed
qed

lemma strip_bins_events:
  "extends st (Inr (strip_bins w exes st)) \<and>
   (\<forall>e \<in> set (events st (Inr (strip_bins w exes st))). \<exists>c. e = Exec ''bin'' c)"
proof (induction exes arbitrary: st)
  case Nil
  show ?case by simp
next
  case (Cons exe exes)
  show ?case
  proof (cases "bin (installed st)")
    case None
    with Cons.IH [of st] show ?thesis by simp
  next
    case (Some listing)
    show ?thesis
    proof (cases "listing exe = None")
      case True
      with Some Cons.IH [of st] show ?thesis by simp
    next
      case False
      let ?st1 = "final (run w ''bin'' (''strip -s '' @ exe) st)"
      have e1: "extends st (Inr ?st1)" "events st (Inr ?st1) = [Exec ''bin'' (''strip -s '' @ exe)]"
        by (simp_all add: run_def Let_def log_def extends_def events_def)
      from extends_trans [OF e1(1), of "Inr (strip_bins w exes ?st1)"] Cons.IH [of ?st1] e1(2)
        False Some
      show ?thesis by auto
    qed
  qed
qed

lemma clean_bin_events: "extends st (clean_bin st)" "events st (clean_bin st) = []"
  by (cases "bin (installed st)"; simp add: clean_bin_def extends_def events_def)+

lemma events_reset [simp]: "events (st\<lparr>updated_libs := u\<rparr>) r = events st r"
  by (simp add: events_def)

lemma extends_reset [simp]: "extends (st\<lparr>updated_libs := u\<rparr>) r = extends st r"
  by (simp add: extends_def)

lemma top_event_about:
  "about ''ffmpeg'' st r \<Longrightarrow> \<forall>e \<in> set (events st r). top_event e"
  "about ''mpv'' st r \<Longrightarrow> \<forall>e \<in> set (events st r). top_event e"
  by (simp_all add: about_def top_event_def)

text \<open>The record of a run is the record of the loop followed by top-level events.\<close>

lemma orchestrate_events:
  "extends st (orchestrate w fl ds st) \<and>
   (\<exists>tl. events st (orchestrate w fl ds st)
            = events st (dep_loop w fl ds (st\<lparr>updated_libs := {}\<rparr>)) @ tl
        \<and> (\<forall>e \<in> set tl. top_event e))"
proof -
  let ?st0 = "st\<lparr>updated_libs := {}\<rparr>"
  let ?l = "dep_loop w fl ds ?st0"
  from dep_loop_extends [of ?st0 w fl ds] have el: "extends st ?l" by simp
  show ?thesis
  proof (cases ?l)
    case (Inl x)
    then have "orchestrate w fl ds st = ?l" by (simp add: orchestrate_def)
    with el show ?thesis by simp
  next
    case L: (Inr st1)
    with el have e1: "extends st (Inr st1)" by simp
    let ?f = "build_ffmpeg w fl st1"
    from top_level_about [of "''ffmpeg''" st1 w fl] have af: "about ''ffmpeg'' st1 ?f"
      by (simp add: build_ffmpeg_def)
    then have ef: "extends st1 ?f" by (simp add: about_def)
    note tf = top_event_about(1) [OF af]
    show ?thesis
    proof (cases ?f)
      case (Inl x)
      with L have "orchestrate w fl ds st = ?f" by (simp add: orchestrate_def)
      with extends_trans [OF e1 ef] tf L show ?thesis by auto
    next
      case F: (Inr st2)
      with ef have e2: "extends st1 (Inr st2)" by simp
      let ?m = "build_mpv w fl st2"
      from top_level_about [of "''mpv''" st2 w fl] have am: "about ''mpv'' st2 ?m"
        by (simp add: build_mpv_def)
      then have em: "extends st2 ?m" by (simp add: about_def)
      note tm = top_event_about(2) [OF am]
      from extends_trans [OF e1 e2] L F tf
      have e12: "extends st (Inr st2)"
        "events st (Inr st2) = events st ?l @ events st1 ?f" by simp_all
      show ?thesis
      proof (cases ?m)
        case (Inl x)
        with L F have "orchestrate w fl ds st = ?m" by (simp add: orchestrate_def)
        with extends_trans [OF e12(1) em] e12(2) tf tm show ?thesis by auto
      next
        case M: (Inr st3)
        with em have e3: "extends st2 (Inr st3)" by simp
        let ?s = "strip_bins w allowed_files st3"
        note es = strip_bins_events [of st3 w allowed_files]
        note ec = clean_bin_events [of ?s]
        from L F M have o: "orchestrate w fl ds st = clean_bin ?s" by (simp add: orchestrate_def)
        from es extends_trans [of st3 ?s "clean_bin ?s"] ec
        have e4: "extends st3 (clean_bin ?s)"
          "events st3 (clean_bin ?s) = events st3 (Inr ?s)" by simp_all
        from extends_trans [OF e12(1) e3] e12(2) M
        have e123: "extends st (Inr st3)"
          "events st (Inr st3) = events st ?l @ events st1 ?f @ events st2 ?m" by simp_all
        from extends_trans [OF e123(1) e4(1)] e123(2) e4(2) o
        have "extends st (orchestrate w fl ds st)"
          "events st (orchestrate w fl ds st)
             = events st ?l @ (events st1 ?f @ events st2 ?m @ events st3 (Inr ?s))" by simp_all
        moreover from tf tm es
        have "\<forall>e \<in> set (events st1 ?f @ events st2 ?m @ events st3 (Inr ?s)). top_event e"
          by (auto simp: top_event_def)
        ultimately show ?thesis by blast
      qed
    qed
  qed
qed

lemma orchestrate_finished:
  "finished (orchestrate w fl ds st) \<Longrightarrow> finished (dep_loop w fl ds (st\<lparr>updated_libs := {}\<rparr>))"
  by (cases "dep_loop w fl ds (st\<lparr>updated_libs := {}\<rparr>)") (simp_all add: orchestrate_def)

lemma top_event_not_dep:
  assumes "top_event e" "''ffmpeg'' \<notin> set (map name ds)" "''mpv'' \<notin> set (map name ds)" "d \<in> set ds"
  shows "e \<noteq> Skipping (name d)" "e \<noteq> Built (name d)" "e \<noteq> Building (name d)"
proof -
  from assms(4) have "name d \<in> name ` set ds" by (rule imageI)
  with assms(2,3) have "name d \<noteq> ''ffmpeg''" "name d \<noteq> ''mpv''" by auto
  with assms(1) show "e \<noteq> Skipping (name d)" "e \<noteq> Built (name d)" "e \<noteq> Building (name d)"
    by (auto simp: top_event_def)
qed

text \<open>For a package of the list, the decisions in a run are those of the loop.\<close>

lemma orchestrate_dep_events:
  assumes "''ffmpeg'' \<notin> set (map name ds)" "''mpv'' \<notin> set (map name ds)" "d \<in> set ds"
  shows "Skipping (name d) \<in> set (events st (orchestrate w fl ds st))
           \<longleftrightarrow> Skipping (name d) \<in> set (events st (dep_loop w fl ds (st\<lparr>updated_libs := {}\<rparr>)))"
    and "Built (name d) \<in> set (events st (orchestrate w fl ds st))
           \<longleftrightarrow> Built (name d) \<in> set (events st (dep_loop w fl ds (st\<lparr>updated_libs := {}\<rparr>)))"
    and "Building (name d) \<in> set (events st (orchestrate w fl ds st))
           \<longleftrightarrow> Building (name d) \<in> set (events st (dep_loop w fl ds (st\<lparr>updated_libs := {}\<rparr>)))"
proof -
  from orchestrate_events [of st w fl ds] obtain tl where
    tl: "events st (orchestrate w fl ds st)
            = events st (dep_loop w fl ds (st\<lparr>updated_libs := {}\<rparr>)) @ tl"
        "\<forall>e \<in> set tl. top_event e" by blast
  from tl(2) top_event_not_dep [OF _ assms]
  have "Skipping (name d) \<notin> set tl" "Built (name d) \<notin> set tl" "Building (name d) \<notin> set tl"
    by blast+
  with tl(1) show "Skipping (name d) \<in> set (events st (orchestrate w fl ds st))
           \<longleftrightarrow> Skipping (name d) \<in> set (events st (dep_loop w fl ds (st\<lparr>updated_libs := {}\<rparr>)))"
    and "Built (name d) \<in> set (events st (orchestrate w fl ds st))
           \<longleftrightarrow> Built (name d) \<in> set (events st (dep_loop w fl ds (st\<lparr>updated_libs := {}\<rparr>)))"
    and "Building (name d) \<in> set (events st (orchestrate w fl ds st))
           \<longleftrightarrow> Building (name d) \<in> set (events st (dep_loop w fl ds (st\<lparr>updated_libs := {}\<rparr>)))"
    by simp_all
qed

subsection \<open>Runs in which nothing is stale\<close>

lemma trace_update_id [simp]: "st\<lparr>trace := trace st @ []\<rparr> = st"
  by simp

lemma git_sync_unchanged:
  assumes "unchanged (git_sync w fl n st)"
  shows "\<exists>evs. git_sync w fl n st = Inr (False, st\<lparr>trace := trace st @ evs\<rparr>) \<and> pulls n evs"
proof (cases "repositories st n = Git")
  case False
  with assms have "git_sync w fl n st = Inr (False, st\<lparr>trace := trace st @ []\<rparr>)"
    by (auto simp: git_sync_def unchanged_def Let_def split: if_splits)
  then show ?thesis by (auto simp: pulls_def simp del: trace_update_id append_Nil2)
next
  case True
  show ?thesis
  proof (cases "skip_updates fl")
    case S: True
    with True have "git_sync w fl n st = Inr (False, st\<lparr>trace := trace st @ []\<rparr>)"
      by (simp add: git_sync_def)
    then show ?thesis by (auto simp: pulls_def simp del: trace_update_id append_Nil2)
  next
    case S: False
    with True assms have "git_sync w fl n st = Inr (False, st\<lparr>trace := trace st @ [Pull n]\<rparr>)"
      by (cases "pull w n") (simp_all add: git_sync_def unchanged_def log_def)
    then show ?thesis by (auto simp: pulls_def)
  qed
qed

lemma tarball_sync_unchanged:
  assumes "unchanged (tarball_sync w n st)"
  shows "tarball_sync w n st = Inr (False, st)"
proof (cases "repositories st n = Git")
  case True
  with assms show ?thesis by (simp add: tarball_sync_def unchanged_def Let_def split: if_splits)
next
  case False
  with assms show ?thesis by (simp add: tarball_sync_def unchanged_def Let_def split: if_splits)
qed

lemma acquire_unchanged:
  assumes "unchanged (acquire w fl d st)"
  shows "\<exists>evs. acquire w fl d st = Inr (False, st\<lparr>trace := trace st @ evs\<rparr>) \<and> pulls (name d) evs"
proof (cases "url d \<noteq> None")
  case True
  with assms git_sync_unchanged [of w fl "name d" st] show ?thesis by (simp add: acquire_def)
next
  case False
  show ?thesis
  proof (cases "name d \<in> {''gettext'', ''xz'', ''fftw'', ''libiconv''}")
    case T: True
    with False assms have "unchanged (tarball_sync w (name d) st)" by (simp add: acquire_def)
    from tarball_sync_unchanged [OF this] False T
    have "acquire w fl d st = Inr (False, st\<lparr>trace := trace st @ []\<rparr>)" by (simp add: acquire_def)
    then show ?thesis by (auto simp: pulls_def simp del: trace_update_id append_Nil2)
  next
    case T: False
    with False have "acquire w fl d st = Inr (False, st\<lparr>trace := trace st @ []\<rparr>)"
      by (simp add: acquire_def)
    then show ?thesis by (auto simp: pulls_def simp del: trace_update_id append_Nil2)
  qed
qed

lemma git_sync_trace_indep:
  "unchanged (git_sync w fl n (st\<lparr>trace := t\<rparr>)) = unchanged (git_sync w fl n st)"
proof (cases "repositories st n = Git")
  case True
  then show ?thesis by (cases "pull w n") (simp_all add: git_sync_def unchanged_def log_def)
next
  case False
  then show ?thesis by (simp add: git_sync_def unchanged_def log_def Let_def)
qed

lemma tarball_sync_trace_indep:
  "unchanged (tarball_sync w n (st\<lparr>trace := t\<rparr>)) = unchanged (tarball_sync w n st)"
  by (simp add: tarball_sync_def unchanged_def log_def Let_def)

lemma acquire_trace_indep:
  "unchanged (acquire w fl d (st\<lparr>trace := t\<rparr>)) = unchanged (acquire w fl d st)"
  using git_sync_trace_indep [where w = w and fl = fl and n = "name d" and st = st and t = t]
    tarball_sync_trace_indep [where w = w and n = "name d" and st = st and t = t]
  by (simp add: acquire_def unchanged_def)

lemma output_missing_trace_indep [simp]:
  "output_missing n (st\<lparr>trace := t\<rparr>) = output_missing n st"
  by (simp add: output_missing_def split: option.splits)

lemma settled_trace_indep [simp]: "settled w fl (st\<lparr>trace := t\<rparr>) d = settled w fl st d"
  by (simp add: settled_def acquire_trace_indep)

lemma process_dep_settled:
  assumes "\<not> clean_mode fl" "settled w fl st d" "\<not> dep_changed d st"
  shows "\<exists>evs. process_dep w fl d st = Inr (st\<lparr>trace := trace st @ evs @ [Skipping (name d)]\<rparr>)
               \<and> pulls (name d) evs"
proof -
  from assms(2) have m: "name d \<in> markers st" and u: "unchanged (acquire w fl d st)"
    and o: "\<not> output_missing (name d) st" by (simp_all add: settled_def)
  from acquire_unchanged [OF u] obtain evs where
    a: "acquire w fl d st = Inr (False, st\<lparr>trace := trace st @ evs\<rparr>)" and p: "pulls (name d) evs"
    by blast
  let ?st1 = "st\<lparr>trace := trace st @ evs\<rparr>"
  from o have "\<not> output_missing (name d) ?st1" by simp
  then have i: "integrity_check (name d) ?st1 = ?st1" by (rule integrity_check_intact)
  from assms(1,3) m have "\<not> stale fl d False ?st1" by (simp add: stale_def dep_changed_def)
  with a i have "process_dep w fl d st = Inr (log (Skipping (name d)) ?st1)"
    by (simp add: process_dep_def)
  with p show ?thesis by (auto simp: log_def)
qed

lemma dep_loop_settled:
  assumes "\<not> clean_mode fl" "\<forall>d \<in> set ds. settled w fl st d" "updated_libs st = {}"
  shows "\<exists>evs. dep_loop w fl ds st = Inr (st\<lparr>trace := trace st @ evs\<rparr>)
               \<and> building evs = {} \<and> built evs = {} \<and> skipped evs = set (map name ds)
               \<and> (\<forall>e \<in> set evs. (\<exists>n. e = Pull n) \<or> (\<exists>n. e = Skipping n))"
  using assms
proof (induction ds arbitrary: st)
  case Nil
  have "dep_loop w fl [] st = Inr (st\<lparr>trace := trace st @ []\<rparr>)" by simp
  then show ?case unfolding building_def built_def skipped_def
    by (intro exI [of _ "[]"]) simp
next
  case (Cons d ds)
  from Cons.prems(3) have "\<not> dep_changed d st" by (simp add: dep_changed_def)
  from process_dep_settled [OF Cons.prems(1) _ this, of w] Cons.prems(2)
  obtain e1 where p: "process_dep w fl d st = Inr (st\<lparr>trace := trace st @ e1 @ [Skipping (name d)]\<rparr>)"
    and e1: "pulls (name d) e1" by auto
  let ?st1 = "st\<lparr>trace := trace st @ e1 @ [Skipping (name d)]\<rparr>"
  from Cons.prems(2) have "\<forall>d \<in> set ds. settled w fl ?st1 d" by simp
  from Cons.IH [OF Cons.prems(1) this] Cons.prems(3)
  obtain e2 where l: "dep_loop w fl ds ?st1 = Inr (?st1\<lparr>trace := trace ?st1 @ e2\<rparr>)"
    and e2: "building e2 = {}" "built e2 = {}" "skipped e2 = set (map name ds)"
      "\<forall>e \<in> set e2. (\<exists>n. e = Pull n) \<or> (\<exists>n. e = Skipping n)" by auto
  from p l have "dep_loop w fl (d # ds) st
                   = Inr (st\<lparr>trace := trace st @ (e1 @ [Skipping (name d)] @ e2)\<rparr>)" by simp
  moreover from e1 e2 have "building (e1 @ [Skipping (name d)] @ e2) = {}"
    "built (e1 @ [Skipping (name d)] @ e2) = {}"
    "skipped (e1 @ [Skipping (name d)] @ e2) = set (map name (d # ds))"
    "\<forall>e \<in> set (e1 @ [Skipping (name d)] @ e2). (\<exists>n. e = Pull n) \<or> (\<exists>n. e = Skipping n)"
    by (auto simp: building_def built_def skipped_def pulls_def)
  ultimately show ?case by blast
qed

lemma top_level_settled:
  assumes "\<not> clean_mode fl" "\<not> forced" "n \<in> markers st" "unchanged (git_sync w fl n st)"
    "updated_libs st = {}"
  shows "\<exists>evs. top_level w fl n forced prep cmds st
                  = Inr (st\<lparr>trace := trace st @ evs @ [Skipping n]\<rparr>) \<and> pulls n evs"
proof -
  from git_sync_unchanged [OF assms(4)] obtain evs where
    g: "git_sync w fl n st = Inr (False, st\<lparr>trace := trace st @ evs\<rparr>)" and p: "pulls n evs"
    by blast
  with assms(1,2,3,5) have "top_level w fl n forced prep cmds st
          = Inr (log (Skipping n) (st\<lparr>trace := trace st @ evs\<rparr>))"
    by (simp add: top_level_def)
  with p show ?thesis by (auto simp: log_def)
qed

subsection \<open>Properties of all events of a run, and the parts of a finished run\<close>





subsection \<open>Under \<^verbatim>\<open>--clean\<close>\<close>






subsection \<open>Runs in which everything succeeds\<close>















lemma deps_well_formed: "well_formed deps"
  by (simp add: well_formed_def deps_def mk_dep_def)


section \<open>The claims about the orchestrator\<close>





end
